theory Spec2Isabelle
  imports Main "HOL-Library.Word"
begin

unbundle bit_operations_syntax

section \<open>Sizes and tags\<close>

text \<open>
  The allocator of \<^verbatim>\<open>heap.cpp\<close> on a 64-bit target: \<^verbatim>\<open>size_t\<close> and pointers are
  64 bits wide, \<^verbatim>\<open>u32\<close> is 32 bits wide, memory is little-endian.
\<close>

type_synonym u8 = "8 word"
type_synonym u32 = "32 word"
type_synonym size_t = "64 word"

text \<open>\<^verbatim>\<open>constexpr size_t heap_block_size = 1 << 14\<close>, \<^verbatim>\<open>sizeof(HeapHeader)\<close> and
  \<^verbatim>\<open>sizeof(m_data) = heap_block_size - sizeof(void*) * 2\<close>.\<close>

definition heap_block_size :: nat where
  "heap_block_size = 16384"

definition header_size :: nat where
  "header_size = 8"

definition data_size :: nat where
  "data_size = heap_block_size - 8 * 2"

text \<open>\<^verbatim>\<open>enum class Signature : u32\<close>.\<close>

definition Used :: u32 where "Used = 0x2137D05A"
definition Empty :: u32 where "Empty = 0xE5425696"
definition EndEdge :: u32 where "EndEdge = 0xE57F402D"
definition Freed :: u32 where "Freed = 0x2137DEAD"
definition BigBlock :: u32 where "BigBlock = 0xB16C8056"
definition ScrubBytes :: u32 where "ScrubBytes = 0xDEDEDEDE"

lemmas Signature_defs = Used_def Empty_def EndEdge_def Freed_def BigBlock_def ScrubBytes_def

section \<open>Raw memory\<close>

text \<open>
  The data area of a block is raw bytes, addressed by the offset from \<^verbatim>\<open>m_data\<close>.
  A \<^verbatim>\<open>HeapHeader\<close> at offset \<open>h\<close> is the \<^verbatim>\<open>u32 signature\<close> at \<open>h\<close> followed by the
  \<^verbatim>\<open>u32 size\<close> at \<open>h + 4\<close>.
\<close>

type_synonym mem = "nat \<Rightarrow> u8"

definition read_u32 :: "mem \<Rightarrow> nat \<Rightarrow> u32" where
  "read_u32 m a =
     ucast (m a) OR push_bit 8 (ucast (m (a + 1))) OR
     push_bit 16 (ucast (m (a + 2))) OR push_bit 24 (ucast (m (a + 3)))"

definition write_u32 :: "mem \<Rightarrow> nat \<Rightarrow> u32 \<Rightarrow> mem" where
  "write_u32 m a w =
     m(a := ucast w, a + 1 := ucast (drop_bit 8 w),
       a + 2 := ucast (drop_bit 16 w), a + 3 := ucast (drop_bit 24 w))"

definition memset :: "mem \<Rightarrow> nat \<Rightarrow> u8 \<Rightarrow> nat \<Rightarrow> mem" where
  "memset m a v n = (\<lambda>i. if a \<le> i \<and> i < a + n then v else m i)"

definition signature_at :: "mem \<Rightarrow> nat \<Rightarrow> u32" where
  "signature_at m h = read_u32 m h"

definition size_at :: "mem \<Rightarrow> nat \<Rightarrow> u32" where
  "size_at m h = read_u32 m (h + 4)"

definition set_signature :: "mem \<Rightarrow> nat \<Rightarrow> u32 \<Rightarrow> mem" where
  "set_signature m h sg = write_u32 m h sg"

definition set_size :: "mem \<Rightarrow> nat \<Rightarrow> u32 \<Rightarrow> mem" where
  "set_size m h sz = write_u32 m (h + 4) sz"

text \<open>\<^verbatim>\<open>new (p) HeapHeader {signature, size}\<close>.\<close>

definition new_header :: "mem \<Rightarrow> nat \<Rightarrow> u32 \<Rightarrow> u32 \<Rightarrow> mem" where
  "new_header m h sg sz = set_size (set_signature m h sg) h sz"

section \<open>HeapHeader\<close>

text \<open>\<^verbatim>\<open>next()\<close>: null for a header of size 0, else the header behind the payload.\<close>

definition next_header :: "mem \<Rightarrow> nat \<Rightarrow> nat option" where
  "next_header m h =
     (if size_at m h = 0 then None else Some (h + unat (size_at m h) + header_size))"

definition valid_sig :: "u32 \<Rightarrow> bool" where
  "valid_sig sg \<longleftrightarrow>
     sg = BigBlock \<or> sg = Empty \<or> sg = Used \<or> sg = EndEdge \<or> sg = Freed"

definition valid_signature :: "mem \<Rightarrow> nat \<Rightarrow> bool" where
  "valid_signature m h \<longleftrightarrow> valid_sig (signature_at m h)"

definition available :: "mem \<Rightarrow> nat \<Rightarrow> bool" where
  "available m h \<longleftrightarrow> signature_at m h = Empty \<or> signature_at m h = Freed"

definition freed :: "mem \<Rightarrow> nat \<Rightarrow> bool" where
  "freed m h \<longleftrightarrow> signature_at m h = Freed"

section \<open>The state of the process\<close>

text \<open>
  An address is the mapping it lies in and the offset inside it: for a heap block the
  offset counts from \<^verbatim>\<open>m_data\<close>, for a big block from the start of the mapping.
  The static block \<^verbatim>\<open>g_heap_storage\<close> is mapping 0.
\<close>

datatype ptr = Null | Ptr nat nat

record HeapBlock =
  m_prev :: "nat option"
  m_next :: "nat option"
  m_data :: mem

text \<open>What \<^verbatim>\<open>printf\<close> and \<^verbatim>\<open>perror\<close> write.\<close>

datatype msg =
    MsgInvalidAlign
  | MsgAllocInvalidSignature u32 ptr
  | MsgNoSuitableBlock
  | MsgAssertFailed
  | MsgNotOnHeap ptr
  | MsgAlreadyFreed
  | MsgFreeInvalidSignature u32 ptr
  | MsgFreeingBigBlock
  | MsgNotInitialized
  | MsgLeakStart nat
  | MsgLeaked u32 ptr
  | MsgLeakCorrupted ptr
  | MsgNoLeak nat
  | MsgDumpBegin
  | MsgDumpNotInitialized
  | MsgDumpHeap nat "nat option"
  | MsgDumpCorrupted ptr u32
  | MsgDumpRegion nat u32 "nat option" bool bool u32 ptr
  | MsgDumpEnd

text \<open>
  The operating system hands out fresh mappings, zero-filled and made of whole pages, as
  long as \<open>os_left\<close> is not exhausted and the length asked for is not 0.
\<close>

record state =
  g_heap_initialized :: bool
  blocks :: "nat \<Rightarrow> HeapBlock option"
  big_blocks :: "nat \<Rightarrow> (nat \<times> mem) option"
  os_next :: nat
  os_left :: nat
  munmapped :: "(ptr \<times> nat) list"
  stdout :: "msg list"

definition g_heap_storage :: nat where
  "g_heap_storage = 0"

definition zeroes :: mem where
  "zeroes = (\<lambda>_. 0)"

definition start :: "nat \<Rightarrow> state" where
  "start n =
     \<lparr>g_heap_initialized = False,
      blocks = (\<lambda>_. None)(g_heap_storage \<mapsto> \<lparr>m_prev = None, m_next = None, m_data = zeroes\<rparr>),
      big_blocks = (\<lambda>_. None), os_next = 1, os_left = n, munmapped = [], stdout = []\<rparr>"

text \<open>
  \<^verbatim>\<open>mmap(nullptr, len, ...)\<close>: the address of a fresh mapping, or \<open>None\<close> for the result
  \<^verbatim>\<open>MAP_FAILED\<close>, that is \<^verbatim>\<open>(void*)-1\<close>, of a refused call. The null pointer is never
  the result, so the tests \<^verbatim>\<open>if(!memory)\<close> of lines 135 and 384 never hold and the
  \<^verbatim>\<open>perror\<close> branches behind them are never run: after a refused call the code goes on
  and writes through \<^verbatim>\<open>(void*)-1\<close>.
\<close>

definition page_size :: nat where
  "page_size = 4096"

definition page_up :: "nat \<Rightarrow> nat" where
  "page_up len = ((len + page_size - 1) div page_size) * page_size"

definition mmap :: "state \<Rightarrow> nat \<Rightarrow> (nat \<times> state) option" where
  "mmap s len =
     (if os_left s = 0 \<or> len = 0 then None
      else Some (os_next s, s\<lparr>os_next := Suc (os_next s), os_left := os_left s - 1\<rparr>))"

definition print :: "msg \<Rightarrow> state \<Rightarrow> state" where
  "print x s = s\<lparr>stdout := stdout s @ [x]\<rparr>"

text \<open>
  How a call ends: it returns, it calls \<^verbatim>\<open>abort()\<close> right after printing a message,
  it touches memory outside every data area (undefined behaviour), or the model's fuel
  for walking the block chain ran out.
\<close>

datatype 'a outcome = Return 'a state | Abort msg | Crash | OutOfFuel

section \<open>HeapBlock\<close>

definition place_edge_headers :: "mem \<Rightarrow> mem" where
  "place_edge_headers m =
     new_header (new_header m 0 Empty (of_nat (data_size - header_size * 2)))
       (data_size - header_size) EndEdge 0"

definition init :: "mem \<Rightarrow> mem" where
  "init m = memset (place_edge_headers m) header_size 0xEF (data_size - header_size * 2)"

text \<open>The constructor \<^verbatim>\<open>HeapBlock(HeapBlock* prev)\<close> run on fresh storage.\<close>

definition HeapBlock_new :: "nat option \<Rightarrow> mem \<Rightarrow> HeapBlock" where
  "HeapBlock_new prev m = \<lparr>m_prev = prev, m_next = None, m_data = init m\<rparr>"

text \<open>
  Lines 129 to 143. The result \<open>None\<close> stands for the write through \<^verbatim>\<open>(void*)-1\<close>: after
  a refused \<^verbatim>\<open>mmap\<close> line 140 stores \<^verbatim>\<open>MAP_FAILED\<close> in \<^verbatim>\<open>m_next\<close> and line 141
  constructs a \<^verbatim>\<open>HeapBlock\<close> there.
\<close>

definition ensure_next_allocated_from_os :: "state \<Rightarrow> nat \<Rightarrow> state option" where
  "ensure_next_allocated_from_os s this =
     (case blocks s this of
        None \<Rightarrow> Some s
      | Some b \<Rightarrow>
          (case m_next b of
             Some n \<Rightarrow> Some s
           | None \<Rightarrow>
               (case mmap s heap_block_size of
                  None \<Rightarrow> None
                | Some (a, s') \<Rightarrow>
                    Some (s'\<lparr>blocks := (blocks s')
                           (this \<mapsto> b\<lparr>m_next := Some a\<rparr>,
                            a \<mapsto> HeapBlock_new (Some this) zeroes)\<rparr>))))"

subsection \<open>alloc\<close>

definition max_t :: "size_t \<Rightarrow> size_t \<Rightarrow> size_t" where
  "max_t a b = (if a > b then a else b)"

text \<open>Lines 204 to 212: the enforced alignment and the rounded size.\<close>

definition align_size :: "size_t \<Rightarrow> size_t \<Rightarrow> size_t" where
  "align_size sz align =
     (let a = max_t 8 align; s = sz AND NOT (a - 1)
      in if s \<noteq> sz then s + a else s)"

text \<open>
  The walk of \<^verbatim>\<open>alloc\<close> over the headers of one block, from the header at \<open>h\<close>.
  \<open>Placed\<close>: a region was split, with the new contents and the offset returned;
  \<open>EndReached\<close>: the walk stands at an \<^verbatim>\<open>EndEdge\<close> header; \<open>NoBlock\<close>: the walk
  left the loop with a null header; \<open>BadSignature\<close>: the abort of line 225;
  \<open>Wild\<close>: a header outside the data area, or the null header, was accessed.
\<close>

datatype scan = Placed mem nat | EndReached | NoBlock | BadSignature u32 nat | Wild

function alloc_scan :: "mem \<Rightarrow> size_t \<Rightarrow> nat \<Rightarrow> scan" where
  "alloc_scan m sz h =
     (if data_size < h + header_size then Wild
      else if \<not> valid_signature m h then BadSignature (signature_at m h) h
      else if available m h \<and> \<not> (ucast (size_at m h) < sz + 8 * 2) then
        (let distance_to_next_header = (ucast (size_at m h) :: size_t) - sz - 8;
             m1 = set_size (set_signature m h Used) h (ucast sz)
         in case next_header m1 h of
              None \<Rightarrow> Wild
            | Some n \<Rightarrow>
                if data_size < n + header_size then Wild
                else Placed (new_header m1 n Empty (ucast distance_to_next_header))
                       (h + header_size))
      else if signature_at m h = EndEdge then EndReached
      else (case next_header m h of
              None \<Rightarrow> NoBlock
            | Some n \<Rightarrow> alloc_scan m sz n))"
  by pat_completeness auto
termination
  by (relation "measure (\<lambda>(m, sz, h). data_size - h)")
     (auto simp: next_header_def header_size_def split: if_splits)

declare alloc_scan.simps [simp del]

fun alloc :: "nat \<Rightarrow> state \<Rightarrow> nat \<Rightarrow> size_t \<Rightarrow> size_t \<Rightarrow> ptr outcome" where
  "alloc 0 s this sz align = OutOfFuel"
| "alloc (Suc k) s this sz align =
     (if align = 0 then Return Null (print MsgInvalidAlign s)
      else
        let align' = max_t 8 align; sz' = align_size sz align
        in if \<not> sz \<le> sz' then Abort MsgAssertFailed
           else
             (case blocks s this of
                None \<Rightarrow> Crash
              | Some b \<Rightarrow>
                  (case alloc_scan (m_data b) sz' 0 of
                     Wild \<Rightarrow> Crash
                   | BadSignature sg h \<Rightarrow> Abort (MsgAllocInvalidSignature sg (Ptr this h))
                   | Placed m' p \<Rightarrow>
                       Return (Ptr this p) (s\<lparr>blocks := (blocks s)(this \<mapsto> b\<lparr>m_data := m'\<rparr>)\<rparr>)
                   | NoBlock \<Rightarrow> Return Null (print MsgNoSuitableBlock s)
                   | EndReached \<Rightarrow>
                       (case ensure_next_allocated_from_os s this of
                          None \<Rightarrow> Crash
                        | Some s' \<Rightarrow>
                            (case blocks s' this of
                               None \<Rightarrow> Crash
                             | Some b' \<Rightarrow>
                                 (case m_next b' of
                                    None \<Rightarrow> Crash
                                  | Some n \<Rightarrow> alloc k s' n sz' align'))))))"

subsection \<open>merge_and_cleanup\<close>

text \<open>
  The inner loop of lines 156 to 167, from \<open>header\<close> with the size summed so far: it
  returns the header the outer loop goes on with and the sum, or \<open>None\<close> when a header
  outside the data area is read.
\<close>

function merge_run :: "mem \<Rightarrow> nat \<Rightarrow> size_t \<Rightarrow> (nat option \<times> size_t) option" where
  "merge_run m h sz =
     (if data_size < h + header_size then None
      else (case next_header m h of
              None \<Rightarrow> Some (None, sz)
            | Some n \<Rightarrow>
                if data_size < n + header_size then None
                else if available m n
                  then merge_run m n (sz + (ucast (size_at m n) + 8))
                  else Some (Some n, sz)))"
  by pat_completeness auto
termination
  by (relation "measure (\<lambda>(m, h, sz). data_size - h)")
     (auto simp: next_header_def header_size_def split: if_splits)

declare merge_run.simps [simp del]

lemma merge_run_forward:
  "merge_run m h sz = Some (Some n, sz') \<Longrightarrow> h < n \<and> n + header_size \<le> data_size"
proof (induction m h sz rule: merge_run.induct)
  case (1 m h sz)
  show ?case
  proof (cases "next_header m h")
    case None
    with "1.prems" show ?thesis
      by (subst (asm) merge_run.simps) (simp split: if_splits)
  next
    case (Some k)
    then have hk: "h < k"
      by (auto simp: next_header_def header_size_def split: if_splits)
    show ?thesis
    proof (cases "available m k")
      case True
      with Some "1.prems"
      have inb: "\<not> data_size < h + header_size" "\<not> data_size < k + header_size"
        and rec: "merge_run m k (sz + (ucast (size_at m k) + 8)) = Some (Some n, sz')"
        by (subst (asm) merge_run.simps, simp split: if_splits)+
      from "1.IH" [OF inb(1) Some inb(2) True rec] hk show ?thesis by simp
    next
      case False
      with Some "1.prems" hk show ?thesis
        by (subst (asm) merge_run.simps) (auto split: if_splits)
    qed
  qed
qed

function merge_walk :: "mem \<Rightarrow> nat \<Rightarrow> mem option" where
  "merge_walk m h =
     (if data_size < h + header_size then None
      else if available m h then
        (case merge_run m h (ucast (size_at m h)) of
           None \<Rightarrow> None
         | Some (header, sz) \<Rightarrow>
             (let m' = set_size m h (ucast sz)
              in case header of None \<Rightarrow> Some m' | Some n \<Rightarrow> merge_walk m' n))
      else (case next_header m h of
              None \<Rightarrow> Some m
            | Some n \<Rightarrow> merge_walk m n))"
  by pat_completeness auto
termination
  by (relation "measure (\<lambda>(m, h). data_size - h)")
     (auto simp: next_header_def header_size_def dest!: merge_run_forward split: if_splits)

declare merge_walk.simps [simp del]

text \<open>Lines 174 to 193: a block that is one available region is given back, unless it
  has no predecessor.\<close>

definition whole_block_free :: "mem \<Rightarrow> bool" where
  "whole_block_free m \<longleftrightarrow>
     available m 0 \<and> (ucast (size_at m 0) :: size_t) = of_nat (data_size - header_size * 2)"

definition unlink_block :: "state \<Rightarrow> nat \<Rightarrow> HeapBlock \<Rightarrow> nat \<Rightarrow> state option" where
  "unlink_block s this b p =
     (let s1 = (case m_next b of
                  None \<Rightarrow> Some s
                | Some n \<Rightarrow>
                    (case blocks s n of
                       None \<Rightarrow> None
                     | Some nb \<Rightarrow> Some (s\<lparr>blocks := (blocks s)(n \<mapsto> nb\<lparr>m_prev := m_prev b\<rparr>)\<rparr>)))
      in case s1 of
           None \<Rightarrow> None
         | Some s2 \<Rightarrow>
             (case blocks s2 p of
                None \<Rightarrow> None
              | Some pb \<Rightarrow>
                  Some (s2\<lparr>blocks := (blocks s2)(p \<mapsto> pb\<lparr>m_next := m_next b\<rparr>, this := None),
                           munmapped := munmapped s2 @ [(Ptr this 0, heap_block_size)]\<rparr>)))"

definition merge_and_cleanup :: "state \<Rightarrow> nat \<Rightarrow> unit outcome" where
  "merge_and_cleanup s this =
     (case blocks s this of
        None \<Rightarrow> Crash
      | Some b \<Rightarrow>
          (case merge_walk (m_data b) 0 of
             None \<Rightarrow> Crash
           | Some m' \<Rightarrow>
               (let b' = b\<lparr>m_data := m'\<rparr>; s' = s\<lparr>blocks := (blocks s)(this \<mapsto> b')\<rparr>
                in if whole_block_free m' then
                     (case m_prev b' of
                        None \<Rightarrow> Return () s'
                      | Some p \<Rightarrow>
                          (case unlink_block s' this b' p of
                             None \<Rightarrow> Crash
                           | Some s'' \<Rightarrow> Return () s''))
                   else Return () s')))"

subsection \<open>free\<close>

definition in_data :: "nat \<Rightarrow> ptr \<Rightarrow> bool" where
  "in_data this addr = (case addr of Null \<Rightarrow> False | Ptr a off \<Rightarrow> a = this \<and> off < data_size)"

definition offset_of :: "ptr \<Rightarrow> nat" where
  "offset_of addr = (case addr of Null \<Rightarrow> 0 | Ptr a off \<Rightarrow> off)"

fun free :: "nat \<Rightarrow> state \<Rightarrow> nat \<Rightarrow> ptr \<Rightarrow> unit outcome" where
  "free 0 s this addr = OutOfFuel"
| "free (Suc k) s this addr =
     (case blocks s this of
        None \<Rightarrow> Crash
      | Some b \<Rightarrow>
          if \<not> in_data this addr then
            (case m_next b of
               Some n \<Rightarrow> free k s n addr
             | None \<Rightarrow> Abort (MsgNotOnHeap addr))
          else if offset_of addr < header_size then Crash
          else
            (let h = offset_of addr - header_size
             in if freed (m_data b) h then Abort MsgAlreadyFreed
                else if \<not> valid_signature (m_data b) h
                  then Abort (MsgFreeInvalidSignature (signature_at (m_data b) h) (Ptr this h))
                else merge_and_cleanup
                       (s\<lparr>blocks := (blocks s)
                            (this \<mapsto> b\<lparr>m_data := set_signature (m_data b) h Freed\<rparr>)\<rparr>) this))"

subsection \<open>leak_check and dump\<close>

function leak_walk :: "mem \<Rightarrow> nat \<Rightarrow> nat \<Rightarrow> msg list \<Rightarrow> bool \<Rightarrow> (msg list \<times> bool) option" where
  "leak_walk m this h out leak_found =
     (if data_size < h + header_size then None
      else if signature_at m h = Used then
        (let hit = (0 < size_at m h);
             out' = (if hit then out @ [MsgLeaked (size_at m h) (Ptr this (h + header_size))]
                     else out)
         in case next_header m h of
              None \<Rightarrow> Some (out', leak_found \<or> hit)
            | Some n \<Rightarrow> leak_walk m this n out' (leak_found \<or> hit))
      else if \<not> valid_signature m h then Some (out @ [MsgLeakCorrupted (Ptr this h)], True)
      else (case next_header m h of
              None \<Rightarrow> Some (out, leak_found)
            | Some n \<Rightarrow> leak_walk m this n out leak_found))"
  by pat_completeness auto
termination
  by (relation "measure (\<lambda>(m, this, h, out, f). data_size - h)")
     (auto simp: next_header_def header_size_def split: if_splits)

declare leak_walk.simps [simp del]

fun leak_check :: "nat \<Rightarrow> state \<Rightarrow> nat \<Rightarrow> unit outcome" where
  "leak_check 0 s this = OutOfFuel"
| "leak_check (Suc k) s this =
     (case blocks s this of
        None \<Rightarrow> Crash
      | Some b \<Rightarrow>
          (case leak_walk (m_data b) this 0 (stdout s @ [MsgLeakStart this]) False of
             None \<Rightarrow> Crash
           | Some (out, leak_found) \<Rightarrow>
               (let s1 = s\<lparr>stdout := out\<rparr>;
                    fin = (\<lambda>t. if \<not> leak_found then print (MsgNoLeak this) t else t)
                in case m_next b of
                     None \<Rightarrow> Return () (fin s1)
                   | Some n \<Rightarrow>
                       (case leak_check k s1 n of
                          Return u s2 \<Rightarrow> Return () (fin s2)
                        | r \<Rightarrow> r))))"

function dump_walk :: "mem \<Rightarrow> nat \<Rightarrow> nat \<Rightarrow> msg list \<Rightarrow> (msg + msg list) option" where
  "dump_walk m this h out =
     (if data_size < h + header_size then None
      else if \<not> valid_signature m h
        then Some (Inl (MsgDumpCorrupted (Ptr this h) (signature_at m h)))
      else
        (let line = MsgDumpRegion h (size_at m h) (next_header m h) (available m h)
                      (freed m h) (signature_at m h) (Ptr this (h + header_size))
         in case next_header m h of
              None \<Rightarrow> Some (Inr (out @ [line]))
            | Some n \<Rightarrow> dump_walk m this n (out @ [line])))"
  by pat_completeness auto
termination
  by (relation "measure (\<lambda>(m, this, h, out). data_size - h)")
     (auto simp: next_header_def header_size_def split: if_splits)

declare dump_walk.simps [simp del]

fun dump :: "nat \<Rightarrow> state \<Rightarrow> nat \<Rightarrow> unit outcome" where
  "dump 0 s this = OutOfFuel"
| "dump (Suc k) s this =
     (case blocks s this of
        None \<Rightarrow> Crash
      | Some b \<Rightarrow>
          (case dump_walk (m_data b) this 0 (stdout s @ [MsgDumpHeap this (m_next b)]) of
             None \<Rightarrow> Crash
           | Some (Inl e) \<Rightarrow> Abort e
           | Some (Inr out) \<Rightarrow>
               (case m_next b of
                  None \<Rightarrow> Return () (s\<lparr>stdout := out\<rparr>)
                | Some n \<Rightarrow> dump k (s\<lparr>stdout := out\<rparr>) n)))"

section \<open>The public functions\<close>

text \<open>Lines 373 to 377: the lazy construction of \<^verbatim>\<open>g_heap_storage\<close>.\<close>

definition ensure_initialized :: "state \<Rightarrow> state" where
  "ensure_initialized s =
     (if g_heap_initialized s then s
      else s\<lparr>blocks := (blocks s)
               (g_heap_storage \<mapsto>
                  HeapBlock_new None
                    (case blocks s g_heap_storage of None \<Rightarrow> zeroes | Some b \<Rightarrow> m_data b)),
             g_heap_initialized := True\<rparr>)"

text \<open>\<^verbatim>\<open>sizeof(HeapBlock) - sizeof(HeapHeader)\<close>, the bound of line 380.\<close>

definition big_block_bound :: size_t where
  "big_block_bound = of_nat (heap_block_size - header_size)"

text \<open>
  Lines 371 to 394. A big block is a mapping of its own, recorded with the number of
  bytes the operating system mapped for it; its header holds the length asked for, cut
  to 32 bits. After a refused \<^verbatim>\<open>mmap\<close> line 389 writes the signature through
  \<^verbatim>\<open>(void*)-1\<close>.
\<close>

definition my_malloc :: "nat \<Rightarrow> state \<Rightarrow> size_t \<Rightarrow> size_t \<Rightarrow> ptr outcome" where
  "my_malloc k s0 sz align =
     (let s = ensure_initialized s0
      in if sz > big_block_bound then
           (case mmap s (unat (sz + 8)) of
              None \<Rightarrow> Crash
            | Some (a, s') \<Rightarrow>
                Return (Ptr a header_size)
                  (s'\<lparr>big_blocks := (big_blocks s')
                        (a \<mapsto> (page_up (unat (sz + 8)),
                               set_size (set_signature zeroes 0 BigBlock) 0 (ucast (sz + 8))))\<rparr>))
         else alloc k s g_heap_storage sz align)"

definition my_heap_dump :: "nat \<Rightarrow> state \<Rightarrow> unit outcome" where
  "my_heap_dump k s =
     (let s1 = print MsgDumpBegin s
      in if \<not> g_heap_initialized s1 then Return () (print MsgDumpNotInitialized s1)
         else (case dump k s1 g_heap_storage of
                 Return u s2 \<Rightarrow> Return () (print MsgDumpEnd s2)
               | r \<Rightarrow> r))"

definition my_leak_check :: "nat \<Rightarrow> state \<Rightarrow> unit outcome" where
  "my_leak_check k s = leak_check k s g_heap_storage"

text \<open>
  \<^verbatim>\<open>my_free\<close> reads the signature in front of the address wherever that lies: in a
  big block, in the data area of a heap block, or elsewhere. The result \<open>None\<close> stands
  for a read outside every header the allocator wrote: in no mapping at all, or, for an
  address less than 8 bytes into a data area, in the pointer fields \<^verbatim>\<open>m_prev\<close> and
  \<^verbatim>\<open>m_next\<close> of the block, which are read there through a \<^verbatim>\<open>HeapHeader*\<close> (undefined
  behaviour, with a result that depends on the addresses the blocks were mapped at).
\<close>

definition signature_before :: "state \<Rightarrow> ptr \<Rightarrow> u32 option" where
  "signature_before s addr =
     (case addr of
        Null \<Rightarrow> None
      | Ptr a off \<Rightarrow>
          if off < header_size then None
          else (case big_blocks s a of
                  Some (len, m) \<Rightarrow>
                    if off - header_size + 4 \<le> len
                    then Some (signature_at m (off - header_size)) else None
                | None \<Rightarrow>
                    (case blocks s a of
                       Some b \<Rightarrow>
                         if off - header_size + 4 \<le> data_size
                         then Some (signature_at (m_data b) (off - header_size)) else None
                     | None \<Rightarrow> None)))"

definition size_before :: "state \<Rightarrow> ptr \<Rightarrow> u32" where
  "size_before s addr =
     (case addr of
        Null \<Rightarrow> 0
      | Ptr a off \<Rightarrow>
          (case big_blocks s a of
             Some (len, m) \<Rightarrow> size_at m (off - header_size)
           | None \<Rightarrow>
               (case blocks s a of
                  Some b \<Rightarrow> size_at (m_data b) (off - header_size)
                | None \<Rightarrow> 0)))"

text \<open>\<^verbatim>\<open>munmap(header, header->size)\<close> of line 420: the call is recorded, and a big
  block whose first byte is \<open>header\<close> is gone afterwards.\<close>

definition munmap_big :: "state \<Rightarrow> ptr \<Rightarrow> nat \<Rightarrow> state" where
  "munmap_big s header len =
     (let s' = s\<lparr>munmapped := munmapped s @ [(header, len)]\<rparr>
      in case header of
           Ptr a 0 \<Rightarrow> (if big_blocks s a \<noteq> None
                       then s'\<lparr>big_blocks := (big_blocks s)(a := None)\<rparr> else s')
         | _ \<Rightarrow> s')"

definition my_free :: "nat \<Rightarrow> state \<Rightarrow> ptr \<Rightarrow> unit outcome" where
  "my_free k s addr =
     (case signature_before s addr of
        None \<Rightarrow> Crash
      | Some sg \<Rightarrow>
          if sg = BigBlock then
            Return ()
              (munmap_big (print MsgFreeingBigBlock s)
                 (case addr of Null \<Rightarrow> Null | Ptr a off \<Rightarrow> Ptr a (off - header_size))
                 (unat (size_before s addr)))
          else if \<not> g_heap_initialized s then Abort MsgNotInitialized
          else free k s g_heap_storage addr)"

section \<open>The layout of a block\<close>
text \<open>
  The headers met from offset \<open>h\<close> on by stepping with \<^verbatim>\<open>next()\<close>, each with its offset,
  signature and size; the walk ends behind a header of size 0 and at the end of the data
  area.
\<close>

function regions :: "mem \<Rightarrow> nat \<Rightarrow> (nat \<times> u32 \<times> u32) list" where
  "regions m h =
     (if data_size < h + header_size then []
      else (h, signature_at m h, size_at m h) #
           (case next_header m h of None \<Rightarrow> [] | Some n \<Rightarrow> regions m n))"
  by pat_completeness auto
termination
  by (relation "measure (\<lambda>(m, h). data_size - h)")
     (auto simp: next_header_def header_size_def split: if_splits)

declare regions.simps [simp del]

text \<open>
  The layout invariant: the walk from offset 0 ends at the end sentinel, a header of
  size 0 with signature \<^verbatim>\<open>EndEdge\<close> at \<open>data_size - header_size\<close>, and the regions with
  their headers add up to the data area.
\<close>

definition layout_ok :: "mem \<Rightarrow> bool" where
  "layout_ok m \<longleftrightarrow>
     (let rs = regions m 0
      in rs \<noteq> [] \<and> last rs = (data_size - header_size, EndEdge, 0) \<and>
         sum_list (map (\<lambda>(h, sg, sz). header_size + unat sz) rs) = data_size)"

text \<open>The same as a relation between the memory and the list of (signature, size).\<close>

type_synonym region = "u32 \<times> u32"

fun chain :: "mem \<Rightarrow> nat \<Rightarrow> region list \<Rightarrow> bool" where
  "chain m h [] = False"
| "chain m h (r # rs) =
     (h + header_size \<le> data_size \<and> signature_at m h = fst r \<and> size_at m h = snd r \<and>
      (if rs = [] then snd r = 0 \<and> fst r = EndEdge \<and> h + header_size = data_size
       else snd r \<noteq> 0 \<and> chain m (h + unat (snd r) + header_size) rs))"

fun offsets :: "nat \<Rightarrow> region list \<Rightarrow> nat list" where
  "offsets h [] = []"
| "offsets h (r # rs) = h # offsets (h + unat (snd r) + header_size) rs"

definition total :: "region list \<Rightarrow> nat" where
  "total rs = sum_list (map (\<lambda>r. header_size + unat (snd r)) rs)"

definition region_list :: "mem \<Rightarrow> region list" where
  "region_list m = map snd (regions m 0)"


text \<open>A region is available, and it is large enough for a payload of \<open>sz\<close> bytes, as
  lines 227 and 232 test it.\<close>

definition avail :: "region \<Rightarrow> bool" where
  "avail r \<longleftrightarrow> fst r = Empty \<or> fst r = Freed"

definition fits :: "size_t \<Rightarrow> region \<Rightarrow> bool" where
  "fits sz r \<longleftrightarrow> avail r \<and> \<not> (ucast (snd r) < sz + 8 * 2)"

text \<open>
  Coalescing as the specification words it: every run of consecutive available regions
  becomes one region, with the signature of its first region, whose size is the sum of
  the sizes of the regions of the run plus one header for each header inside the run.
  A block is coalesced when no two neighbouring regions are both available.
\<close>

function coalesce :: "region list \<Rightarrow> region list" where
  "coalesce [] = []"
| "coalesce (r # rs) =
     (if avail r
      then (fst r, of_nat (unat (snd r) + total (takeWhile avail rs))) #
           coalesce (dropWhile avail rs)
      else r # coalesce rs)"
  by pat_completeness auto
termination
  by (relation "measure length") (auto simp: length_dropWhile_le le_imp_less_Suc)

fun coalesced :: "region list \<Rightarrow> bool" where
  "coalesced (a # b # rs) = (\<not> (avail a \<and> avail b) \<and> coalesced (b # rs))"
| "coalesced rs = True"

text \<open>The list of regions after the header at offset \<open>h0\<close> was marked \<^verbatim>\<open>Freed\<close>;
  \<open>h\<close> is the offset of the first region of the list.\<close>

fun mark_freed :: "nat \<Rightarrow> nat \<Rightarrow> region list \<Rightarrow> region list" where
  "mark_freed h0 h [] = []"
| "mark_freed h0 h (r # rs) =
     (if h = h0 then (Freed, snd r) # rs
      else r # mark_freed h0 (h + unat (snd r) + header_size) rs)"

text \<open>The regions in front of the address \<open>p\<close>: those whose header lies at an offset
  \<open>h\<close> with \<open>h + header_size < p\<close>; \<open>h\<close> is the offset of the first region of the
  list.\<close>

fun before :: "nat \<Rightarrow> nat \<Rightarrow> region list \<Rightarrow> region list" where
  "before p h [] = []"
| "before p h (r # rs) =
     (if h + header_size < p then r # before p (h + unat (snd r) + header_size) rs else [])"

definition regions_before :: "mem \<Rightarrow> nat \<Rightarrow> region list" where
  "regions_before m p = before p 0 (region_list m)"

text \<open>The offsets of the headers of a block, as the walk meets them.\<close>

definition header_offsets :: "mem \<Rightarrow> nat list" where
  "header_offsets m = map fst (regions m 0)"

text \<open>
  The invariant over the whole heap: every mapped block satisfies the layout invariant;
  the static root block only once it has been constructed. An address is a region
  address when it is the payload address of a region of a mapped block.
\<close>

definition all_laid_out :: "state \<Rightarrow> bool" where
  "all_laid_out s \<longleftrightarrow> (\<forall>a b. blocks s a = Some b \<longrightarrow> layout_ok (m_data b))"

definition heap_ok :: "state \<Rightarrow> bool" where
  "heap_ok s \<longleftrightarrow>
     (\<forall>a b. blocks s a = Some b \<longrightarrow>
        (a = g_heap_storage \<and> \<not> g_heap_initialized s) \<or> layout_ok (m_data b))"

definition region_address :: "state \<Rightarrow> ptr \<Rightarrow> bool" where
  "region_address s addr =
     (case addr of
        Null \<Rightarrow> False
      | Ptr a off \<Rightarrow>
          (case blocks s a of
             None \<Rightarrow> False
           | Some b \<Rightarrow>
               header_size \<le> off \<and> off < data_size \<and>
               off - header_size \<in> set (header_offsets (m_data b))))"

text \<open>
  The root block is mapped, has no predecessor, and is nobody's successor; the operating
  system hands out addresses other than that of the root block.
\<close>

definition root_ok :: "state \<Rightarrow> bool" where
  "root_ok s \<longleftrightarrow>
     g_heap_storage < os_next s \<and>
     (\<exists>b. blocks s g_heap_storage = Some b \<and> m_prev b = None) \<and>
     (\<forall>a b. blocks s a = Some b \<longrightarrow> m_next b \<noteq> Some g_heap_storage)"

text \<open>
  The walks of \<^verbatim>\<open>leak_check\<close> and of \<^verbatim>\<open>dump\<close> over one block. \<open>meets_corrupt m h0 h\<close>:
  stepping with \<^verbatim>\<open>next()\<close> from the header at \<open>h0\<close>, over headers with recognised
  signatures inside the data area, the walk comes to a header at \<open>h\<close> whose signature is
  not recognised. \<open>walk_ok m h0\<close>: the walk stays inside the data area until it ends, at
  a header of size 0 or at an unrecognised signature. \<open>leaks_before m this h0\<close>: the
  lines for the \<^verbatim>\<open>Used\<close> regions of size above 0 that the walk meets until it ends.
\<close>

function meets_corrupt :: "mem \<Rightarrow> nat \<Rightarrow> nat \<Rightarrow> bool" where
  "meets_corrupt m h0 h =
     (if data_size < h0 + header_size then False
      else if \<not> valid_signature m h0 then h0 = h
      else (case next_header m h0 of None \<Rightarrow> False | Some n \<Rightarrow> meets_corrupt m n h))"
  by pat_completeness auto
termination
  by (relation "measure (\<lambda>(m, h0, h). data_size - h0)")
     (auto simp: next_header_def header_size_def split: if_splits)

declare meets_corrupt.simps [simp del]

function walk_ok :: "mem \<Rightarrow> nat \<Rightarrow> bool" where
  "walk_ok m h0 =
     (if data_size < h0 + header_size then False
      else if \<not> valid_signature m h0 then True
      else (case next_header m h0 of None \<Rightarrow> True | Some n \<Rightarrow> walk_ok m n))"
  by pat_completeness auto
termination
  by (relation "measure (\<lambda>(m, h0). data_size - h0)")
     (auto simp: next_header_def header_size_def split: if_splits)

declare walk_ok.simps [simp del]

function leaks_before :: "mem \<Rightarrow> nat \<Rightarrow> nat \<Rightarrow> msg list" where
  "leaks_before m this h0 =
     (if data_size < h0 + header_size then []
      else if \<not> valid_signature m h0 then []
      else (if signature_at m h0 = Used \<and> 0 < size_at m h0
            then [MsgLeaked (size_at m h0) (Ptr this (h0 + header_size))] else []) @
           (case next_header m h0 of None \<Rightarrow> [] | Some n \<Rightarrow> leaks_before m this n))"
  by pat_completeness auto
termination
  by (relation "measure (\<lambda>(m, this, h0). data_size - h0)")
     (auto simp: next_header_def header_size_def split: if_splits)

declare leaks_before.simps [simp del]

text \<open>The blocks met from the block \<open>this\<close> by following \<^verbatim>\<open>m_next\<close> are those of the
  list, all mapped, the last without a successor, and the walk over each stays inside
  its data area.\<close>

fun block_chain :: "state \<Rightarrow> nat \<Rightarrow> nat list \<Rightarrow> bool" where
  "block_chain s this [] = False"
| "block_chain s this (a # as) =
     (a = this \<and>
      (case blocks s a of
         None \<Rightarrow> False
       | Some b \<Rightarrow>
           walk_ok (m_data b) 0 \<and>
           (case m_next b of None \<Rightarrow> as = [] | Some n \<Rightarrow> block_chain s n as)))"

text \<open>
  A caller of the allocator, as \<^verbatim>\<open>main.cpp\<close> is one: a list of calls run in order until
  one of them does not return; the result holds the addresses \<^verbatim>\<open>my_malloc\<close> returned.
\<close>

datatype call = Malloc size_t size_t | Free ptr

fun run :: "nat \<Rightarrow> state \<Rightarrow> call list \<Rightarrow> ptr list outcome" where
  "run k s [] = Return [] s"
| "run k s (Malloc sz align # cs) =
     (case my_malloc k s sz align of
        Return p s' \<Rightarrow>
          (case run k s' cs of
             Return ps s'' \<Rightarrow> Return (p # ps) s''
           | Abort d \<Rightarrow> Abort d | Crash \<Rightarrow> Crash | OutOfFuel \<Rightarrow> OutOfFuel)
      | Abort d \<Rightarrow> Abort d | Crash \<Rightarrow> Crash | OutOfFuel \<Rightarrow> OutOfFuel)"
| "run k s (Free p # cs) =
     (case my_free k s p of
        Return u s' \<Rightarrow> run k s' cs
      | Abort d \<Rightarrow> Abort d | Crash \<Rightarrow> Crash | OutOfFuel \<Rightarrow> OutOfFuel)"

section \<open>Example states\<close>

text \<open>A root block whose first header was overwritten with scrub bytes.\<close>

definition scrubbed_root :: state where
  "scrubbed_root =
     \<lparr>g_heap_initialized = True,
      blocks = (\<lambda>_. None)(g_heap_storage \<mapsto>
         \<lparr>m_prev = None, m_next = None, m_data = set_signature (init zeroes) 0 ScrubBytes\<rparr>),
      big_blocks = (\<lambda>_. None), os_next = 1, os_left = 0, munmapped = [], stdout = []\<rparr>"

text \<open>The root block after \<^verbatim>\<open>my_malloc(400)\<close> as the first call, and the state around it.\<close>

definition block_400 :: mem where
  "block_400 = new_header (set_size (set_signature (init zeroes) 0 Used) 0 400) 408 Empty 15944"

definition block_400_freed :: mem where
  "block_400_freed = set_size (set_signature block_400 0 Freed) 0 16352"

definition state_with :: "mem \<Rightarrow> state" where
  "state_with m =
     \<lparr>g_heap_initialized = True,
      blocks = (\<lambda>_. None)(g_heap_storage \<mapsto> \<lparr>m_prev = None, m_next = None, m_data = m\<rparr>),
      big_blocks = (\<lambda>_. None), os_next = 1, os_left = 0, munmapped = [], stdout = []\<rparr>"

text \<open>A root block filled by one allocation of 16336 bytes, followed by a second block
  that holds one allocation of 8 bytes; and the same after that allocation was marked
  \<^verbatim>\<open>Freed\<close>.\<close>

definition block_full :: mem where
  "block_full = new_header (set_size (set_signature (init zeroes) 0 Used) 0 16336) 16344 Empty 8"

definition block_8 :: mem where
  "block_8 = new_header (set_size (set_signature (init zeroes) 0 Used) 0 8) 16 Empty 16336"

definition two_blocks :: "mem \<Rightarrow> state" where
  "two_blocks m =
     \<lparr>g_heap_initialized = True,
      blocks = (\<lambda>_. None)
        (g_heap_storage \<mapsto> \<lparr>m_prev = None, m_next = Some 1, m_data = block_full\<rparr>,
         1 \<mapsto> \<lparr>m_prev = Some g_heap_storage, m_next = None, m_data = m\<rparr>),
      big_blocks = (\<lambda>_. None), os_next = 2, os_left = 0, munmapped = [], stdout = []\<rparr>"

definition block_8_freed :: mem where
  "block_8_freed = set_size (set_signature block_8 0 Freed) 0 16352"

definition full_root :: "nat \<Rightarrow> state" where
  "full_root n =
     \<lparr>g_heap_initialized = True,
      blocks = (\<lambda>_. None)
        (g_heap_storage \<mapsto> \<lparr>m_prev = None, m_next = None, m_data = block_full\<rparr>),
      big_blocks = (\<lambda>_. None), os_next = 1, os_left = n, munmapped = [], stdout = []\<rparr>"

definition second_released :: state where
  "second_released =
     \<lparr>g_heap_initialized = True,
      blocks = (\<lambda>_. None)
        (g_heap_storage \<mapsto> \<lparr>m_prev = None, m_next = None, m_data = block_full\<rparr>),
      big_blocks = (\<lambda>_. None), os_next = 2, os_left = 0,
      munmapped = [(Ptr 1 0, heap_block_size)], stdout = []\<rparr>"

text \<open>The root block along two allocations of 8 bytes, the release of the second and then
  of the first, another allocation of 8 bytes, and the release of the second address
  again.\<close>

definition block_8_8 :: mem where
  "block_8_8 = new_header (set_size (set_signature block_8 16 Used) 16 8) 32 Empty 16320"

definition block_8_8_a :: mem where
  "block_8_8_a = set_size (set_signature block_8_8 16 Freed) 16 16336"

definition block_8_8_b :: mem where
  "block_8_8_b = set_size (set_signature block_8_8_a 0 Freed) 0 16352"

definition block_8_8_c :: mem where
  "block_8_8_c = new_header (set_size (set_signature block_8_8_b 0 Used) 0 8) 16 Empty 16336"

definition block_8_8_d :: mem where
  "block_8_8_d = set_size (set_signature block_8_8_c 16 Freed) 16 16336"

text \<open>The root block along allocations of 32 and of 8 bytes, the release of the first, an
  allocation of 104 bytes, its release, and an allocation of 8 bytes.\<close>

definition hole_1 :: mem where
  "hole_1 = new_header (set_size (set_signature (init zeroes) 0 Used) 0 32) 40 Empty 16312"

definition hole_2 :: mem where
  "hole_2 = new_header (set_size (set_signature hole_1 40 Used) 40 8) 56 Empty 16296"

definition hole_3 :: mem where
  "hole_3 = set_size (set_size (set_signature hole_2 0 Freed) 0 32) 56 16296"

definition hole_4 :: mem where
  "hole_4 = new_header (set_size (set_signature hole_3 56 Used) 56 104) 168 Empty 16184"

definition hole_5 :: mem where
  "hole_5 = set_size (set_size (set_signature hole_4 56 Freed) 0 32) 56 16296"

definition hole_6 :: mem where
  "hole_6 = new_header (set_size (set_signature hole_5 0 Used) 0 8) 16 Empty 16"

text \<open>A heap of two blocks: in the root block, after \<^verbatim>\<open>my_malloc(400)\<close>, the header behind
  the allocation was overwritten with scrub bytes; the second block is new.\<close>

definition corrupt_400 :: mem where
  "corrupt_400 = set_signature block_400 408 ScrubBytes"

definition corrupt_heap :: state where
  "corrupt_heap =
     \<lparr>g_heap_initialized = True,
      blocks = (\<lambda>_. None)
        (g_heap_storage \<mapsto> \<lparr>m_prev = None, m_next = Some 1, m_data = corrupt_400\<rparr>,
         1 \<mapsto> \<lparr>m_prev = Some g_heap_storage, m_next = None, m_data = init zeroes\<rparr>),
      big_blocks = (\<lambda>_. None), os_next = 2, os_left = 0, munmapped = [], stdout = []\<rparr>"

section \<open>Reading and writing headers\<close>

lemma read_write_same: "read_u32 (write_u32 m a w) a = w"
  unfolding read_u32_def write_u32_def
  apply simp
  apply (rule bit_word_eqI)
  apply (auto simp: bit_simps)
  subgoal for n by (cases "24 \<le> n") simp_all
  done

lemma read_write_other:
  "a + 4 \<le> b \<or> b + 4 \<le> a \<Longrightarrow> read_u32 (write_u32 m a w) b = read_u32 m b"
  unfolding read_u32_def write_u32_def
  by auto

lemma read_u32_cong:
  "(\<And>x. a \<le> x \<Longrightarrow> x < a + 4 \<Longrightarrow> m' x = m x) \<Longrightarrow> read_u32 m' a = read_u32 m a"
  unfolding read_u32_def by simp

lemma write_u32_frame: "x < a \<or> a + 4 \<le> x \<Longrightarrow> write_u32 m a w x = m x"
  unfolding write_u32_def by auto

lemma signature_at_cong:
  "(\<And>x. h \<le> x \<Longrightarrow> x < h + 4 \<Longrightarrow> m' x = m x) \<Longrightarrow> signature_at m' h = signature_at m h"
  unfolding signature_at_def by (rule read_u32_cong) simp

lemma size_at_cong:
  "(\<And>x. h + 4 \<le> x \<Longrightarrow> x < h + 8 \<Longrightarrow> m' x = m x) \<Longrightarrow> size_at m' h = size_at m h"
  unfolding size_at_def by (rule read_u32_cong) simp

lemma set_signature_frame: "x < h \<or> h + 4 \<le> x \<Longrightarrow> set_signature m h sg x = m x"
  unfolding set_signature_def by (simp add: write_u32_frame)

lemma set_size_frame: "x < h + 4 \<or> h + 8 \<le> x \<Longrightarrow> set_size m h sz x = m x"
  unfolding set_size_def by (auto simp add: write_u32_frame)

lemma new_header_frame: "x < h \<or> h + 8 \<le> x \<Longrightarrow> new_header m h sg sz x = m x"
  unfolding new_header_def by (auto simp add: set_size_frame set_signature_frame)

lemma signature_set_signature [simp]: "signature_at (set_signature m h sg) h = sg"
  by (simp add: signature_at_def set_signature_def read_write_same)

lemma size_set_size [simp]: "size_at (set_size m h sz) h = sz"
  by (simp add: size_at_def set_size_def read_write_same)

lemma signature_set_size [simp]: "signature_at (set_size m h sz) h = signature_at m h"
  by (rule signature_at_cong) (simp add: set_size_frame)

lemma size_set_signature [simp]: "size_at (set_signature m h sz) h = size_at m h"
  by (rule size_at_cong) (simp add: set_signature_frame)

lemma signature_new_header [simp]: "signature_at (new_header m h sg sz) h = sg"
  by (simp add: new_header_def)

lemma size_new_header [simp]: "size_at (new_header m h sg sz) h = sz"
  by (simp add: new_header_def)

text \<open>Headers that do not overlap do not disturb each other.\<close>

lemma signature_set_signature_other:
  "h + 4 \<le> h' \<or> h' + 4 \<le> h \<Longrightarrow> signature_at (set_signature m h sg) h' = signature_at m h'"
  by (rule signature_at_cong) (auto simp add: set_signature_frame)

lemma size_set_signature_other:
  "h \<le> h' \<or> h' + 8 \<le> h \<Longrightarrow> size_at (set_signature m h sg) h' = size_at m h'"
  by (rule size_at_cong) (auto simp add: set_signature_frame)

lemma signature_set_size_other:
  "h' \<le> h \<or> h + 8 \<le> h' \<Longrightarrow> signature_at (set_size m h sz) h' = signature_at m h'"
  by (rule signature_at_cong) (auto simp add: set_size_frame)

lemma size_set_size_other:
  "h + 4 \<le> h' \<or> h' + 4 \<le> h \<Longrightarrow> size_at (set_size m h sz) h' = size_at m h'"
  by (rule size_at_cong) (auto simp add: set_size_frame)

lemma signature_new_header_other:
  "h + 8 \<le> h' \<or> h' + 4 \<le> h \<Longrightarrow> signature_at (new_header m h sg sz) h' = signature_at m h'"
  by (rule signature_at_cong) (auto simp add: new_header_frame)

lemma size_new_header_other:
  "h + 8 \<le> h' \<or> h' + 8 \<le> h \<Longrightarrow> size_at (new_header m h sg sz) h' = size_at m h'"
  by (rule size_at_cong) (auto simp add: new_header_frame)

lemma signature_memset_other:
  "h + 4 \<le> a \<or> a + n \<le> h \<Longrightarrow> signature_at (memset m a v n) h = signature_at m h"
  by (rule signature_at_cong) (auto simp add: memset_def)

lemma size_memset_other:
  "h + 8 \<le> a \<or> a + n \<le> h + 4 \<Longrightarrow> size_at (memset m a v n) h = size_at m h"
  by (rule size_at_cong) (auto simp add: memset_def)

lemmas header_other = signature_set_signature_other size_set_signature_other
  signature_set_size_other size_set_size_other signature_new_header_other size_new_header_other
  signature_memset_other size_memset_other

lemma data_size_eq: "data_size = 16368"
  by (simp add: data_size_def heap_block_size_def)

lemma Signature_distinct:
  "Used \<noteq> Empty" "Used \<noteq> EndEdge" "Used \<noteq> Freed" "Used \<noteq> BigBlock"
  "Empty \<noteq> EndEdge" "Empty \<noteq> Freed" "Empty \<noteq> BigBlock" "EndEdge \<noteq> Freed"
  "EndEdge \<noteq> BigBlock" "Freed \<noteq> BigBlock"
  "Empty \<noteq> Used" "EndEdge \<noteq> Used" "Freed \<noteq> Used" "BigBlock \<noteq> Used"
  "EndEdge \<noteq> Empty" "Freed \<noteq> Empty" "BigBlock \<noteq> Empty" "Freed \<noteq> EndEdge"
  "BigBlock \<noteq> EndEdge" "BigBlock \<noteq> Freed"
  by (simp_all add: Signature_defs)

lemmas init_defs = init_def place_edge_headers_def header_other data_size_eq header_size_def

lemma init_headers:
  "signature_at (init m) 0 = Empty" "size_at (init m) 0 = 16352"
  "signature_at (init m) 16360 = EndEdge" "size_at (init m) 16360 = 0"
  by (simp_all add: init_defs)

section \<open>Sizes in 32 and 64 bits\<close>

lemma unat32_bound: "unat (s :: 32 word) < 4294967296"
  using unsigned_less [of s] by simp

lemma unat_ucast_up: "unat (ucast (s :: 32 word) :: 64 word) = unat s"
proof -
  have "unat s < 2 ^ 64" using unat32_bound [of s] by simp
  then show ?thesis by (simp add: unsigned_ucast_eq take_bit_nat_eq_self)
qed

lemma unat_ucast_down: "unat (ucast (x :: 64 word) :: 32 word) = unat x mod 2 ^ 32"
  by (simp add: unsigned_ucast_eq take_bit_eq_mod)

lemma unat_ucast_down_small: "unat (x :: 64 word) < 2 ^ 32 \<Longrightarrow> unat (ucast x :: 32 word) = unat x"
  by (simp add: unat_ucast_down)

lemma unat64_bound: "unat (s :: 64 word) < 18446744073709551616"
  using unsigned_less [of s] by simp

lemma unat_add64: "unat a + unat b < 18446744073709551616 \<Longrightarrow> unat (a + b :: 64 word) = unat a + unat b"
  using unat_add_lem [of a b] by simp

lemma fits_no_wrap:
  assumes "unat (sz :: 64 word) + 16 < 18446744073709551616"
  shows "(ucast (s :: 32 word) < sz + 16) = (unat s < unat sz + 16)"
proof -
  have "unat (sz + 16) = unat sz + 16" using unat_add64 [of sz 16] assms by simp
  then show ?thesis by (simp add: word_less_nat_alt unat_ucast_up)
qed

lemma fits_exact:
  assumes "\<not> (ucast (s :: 32 word) < (sz :: 64 word) + 16)"
    and "unat (ucast sz :: 32 word) \<le> 16352"
  shows "unat sz + 16 \<le> unat s"
proof (cases "unat sz + 16 < 18446744073709551616")
  case True
  with assms(1) show ?thesis by (simp add: fits_no_wrap)
next
  case False
  then have ge: "18446744073709551600 \<le> unat sz" by simp
  have lt: "unat sz < 18446744073709551616" by (rule unat64_bound)
  define v where "v = unat sz - 18446744069414584320"
  have sz: "unat sz = v + 4294967296 * 4294967295" and v: "4294967280 \<le> v" "v < 4294967296"
    using ge lt by (simp_all add: v_def)
  have "(v + 4294967296 * 4294967295) mod 4294967296 = v mod 4294967296"
    by (rule mod_mult_self2)
  then have "unat sz mod 4294967296 = v mod 4294967296"
    by (simp only: sz)
  also have "\<dots> = v" using v by simp
  finally have "unat (ucast sz :: 32 word) = v" by (simp add: unat_ucast_down)
  with assms(2) v show ?thesis by simp
qed

lemma split_sizes:
  assumes "unat (sz :: 64 word) + 16 \<le> unat (s :: 32 word)"
  shows "unat (ucast sz :: 32 word) = unat sz"
    and "unat (ucast (ucast s - sz - 8 :: 64 word) :: 32 word) = unat s - unat sz - 8"
proof -
  have b: "unat s < 4294967296" by (rule unat32_bound)
  show "unat (ucast sz :: 32 word) = unat sz"
    using assms b by (intro unat_ucast_down_small) simp
  have le1: "sz \<le> ucast s" using assms by (simp add: word_le_nat_alt unat_ucast_up)
  have u1: "unat (ucast s - sz :: 64 word) = unat s - unat sz"
    using unat_sub [OF le1] by (simp add: unat_ucast_up)
  have le2: "(8 :: 64 word) \<le> ucast s - sz" using assms u1 by (simp add: word_le_nat_alt)
  have u2: "unat (ucast s - sz - 8 :: 64 word) = unat s - unat sz - 8"
    using unat_sub [OF le2] u1 by simp
  show "unat (ucast (ucast s - sz - 8 :: 64 word) :: 32 word) = unat s - unat sz - 8"
    using u2 b by (simp add: unat_ucast_down)
qed

lemma merge_add:
  assumes "unat (acc :: 64 word) + unat (z :: 32 word) + 8 < 4294967296"
  shows "unat (acc + (ucast z + 8)) = unat acc + unat z + 8"
proof -
  have "unat (ucast z + 8 :: 64 word) = unat z + 8"
    using unat_add64 [of "ucast z" 8] assms by (simp add: unat_ucast_up)
  then show ?thesis using unat_add64 [of acc "ucast z + 8"] assms by simp
qed

section \<open>Properties of the layout\<close>

lemma total_simps [simp]:
  "total [] = 0" "total (r # rs) = header_size + unat (snd r) + total rs"
  "total (xs @ ys) = total xs + total ys"
  by (simp_all add: total_def)

lemma length_offsets [simp]: "length (offsets h rs) = length rs"
  by (induction rs arbitrary: h) simp_all

lemma chain_regions:
  "chain m h rs \<Longrightarrow> regions m h = zip (offsets h rs) rs"
proof (induction rs arbitrary: h)
  case Nil
  then show ?case by simp
next
  case (Cons r rs)
  show ?case
  proof (cases "rs = []")
    case True
    with Cons.prems show ?thesis
      by (subst regions.simps) (auto simp add: next_header_def prod_eq_iff)
  next
    case False
    with Cons.prems have "chain m (h + unat (snd r) + header_size) rs" by simp
    then have "regions m (h + unat (snd r) + header_size) =
        zip (offsets (h + unat (snd r) + header_size) rs) rs"
      by (rule Cons.IH)
    with Cons.prems False show ?thesis
      by (subst regions.simps) (auto simp add: next_header_def prod_eq_iff)
  qed
qed

lemma chain_total: "chain m h rs \<Longrightarrow> h + total rs = data_size"
proof (induction rs arbitrary: h)
  case Nil
  then show ?case by simp
next
  case (Cons r rs)
  show ?case
  proof (cases "rs = []")
    case True
    with Cons.prems show ?thesis by simp
  next
    case False
    with Cons.prems have "chain m (h + unat (snd r) + header_size) rs" by simp
    from Cons.IH [OF this] show ?thesis by simp
  qed
qed

lemma chain_last: "chain m h rs \<Longrightarrow> last (zip (offsets h rs) rs) = (data_size - header_size, EndEdge, 0)"
proof (induction rs arbitrary: h)
  case Nil
  then show ?case by simp
next
  case (Cons r rs)
  show ?case
  proof (cases "rs = []")
    case True
    with Cons.prems show ?thesis by (cases r) (auto simp: header_size_def)
  next
    case False
    with Cons.prems have c: "chain m (h + unat (snd r) + header_size) rs" by simp
    from False obtain x xs where "rs = x # xs" by (cases rs) auto
    with Cons.IH [OF c] show ?thesis by simp
  qed
qed

lemma sum_zip_offsets:
  "sum_list (map (\<lambda>(h, sg, sz). header_size + unat sz) (zip (offsets h rs) rs)) = total rs"
  by (induction rs arbitrary: h) (auto simp: total_def)

lemma map_snd_zip_offsets: "map snd (zip (offsets h rs) rs) = rs"
  by (simp add: map_snd_zip)

lemma map_fst_zip_offsets: "map fst (zip (offsets h rs) rs) = offsets h rs"
  by (simp add: map_fst_zip)

lemma regions_chain:
  assumes "regions m h \<noteq> []" "last (regions m h) = (data_size - header_size, EndEdge, 0)"
  shows "chain m h (map snd (regions m h))"
  using assms
proof (induction m h rule: regions.induct)
  case (1 m h)
  from "1.prems"(1) have inb: "\<not> data_size < h + header_size"
    by (subst (asm) regions.simps) (simp split: if_splits)
  show ?case
  proof (cases "next_header m h")
    case None
    then have r: "regions m h = [(h, signature_at m h, size_at m h)]"
      using inb by (subst regions.simps) simp
    with "1.prems"(2) inb show ?thesis by (auto simp: header_size_def data_size_eq)
  next
    case (Some n)
    then have r: "regions m h = (h, signature_at m h, size_at m h) # regions m n"
      using inb by (subst regions.simps) simp
    have n: "n = h + unat (size_at m h) + header_size" "size_at m h \<noteq> 0"
      using Some by (auto simp: next_header_def split: if_splits)
    show ?thesis
    proof (cases "regions m n = []")
      case True
      with r "1.prems"(2) n show ?thesis by simp
    next
      case False
      with r "1.prems"(2) have "last (regions m n) = (data_size - header_size, EndEdge, 0)"
        by simp
      from "1.IH" [OF inb Some False this] have "chain m n (map snd (regions m n))" .
      with r n inb False show ?thesis by simp
    qed
  qed
qed

lemma layout_ok_chain: "layout_ok m \<longleftrightarrow> (\<exists>rs. chain m 0 rs)"
proof
  assume "layout_ok m"
  then have "chain m 0 (map snd (regions m 0))"
    by (intro regions_chain) (simp_all add: layout_ok_def Let_def)
  then show "\<exists>rs. chain m 0 rs" ..
next
  assume "\<exists>rs. chain m 0 rs"
  then obtain rs where c: "chain m 0 rs" ..
  then have r: "regions m 0 = zip (offsets 0 rs) rs" by (rule chain_regions)
  from c have "rs \<noteq> []" by auto
  then have ne: "zip (offsets 0 rs) rs \<noteq> []" by (cases rs) auto
  show "layout_ok m"
    using ne chain_last [OF c] chain_total [OF c]
    by (simp add: layout_ok_def Let_def r sum_zip_offsets)
qed

lemma chain_region_list: "chain m 0 rs \<Longrightarrow> region_list m = rs"
  by (simp add: region_list_def chain_regions map_snd_zip)

lemma layout_ok_region_list: "layout_ok m \<Longrightarrow> chain m 0 (region_list m)"
  using chain_region_list layout_ok_chain by auto

text \<open>Only the bytes from the header on matter.\<close>

lemma chain_cong:
  "(\<And>x. h \<le> x \<Longrightarrow> m' x = m x) \<Longrightarrow> chain m' h rs = chain m h rs"
proof (induction rs arbitrary: h)
  case Nil
  show ?case by simp
next
  case (Cons r rs)
  have s: "signature_at m' h = signature_at m h" "size_at m' h = size_at m h"
    by (rule signature_at_cong size_at_cong, simp add: Cons.prems)+
  have "chain m' (h + unat (snd r) + header_size) rs = chain m (h + unat (snd r) + header_size) rs"
    by (rule Cons.IH) (simp add: Cons.prems)
  with s show ?case by simp
qed

lemma chain_init: "chain (init m) 0 [(Empty, 16352), (EndEdge, 0)]"
  by (simp add: init_headers data_size_eq header_size_def)

lemma layout_ok_init: "layout_ok (init m)"
  using chain_init layout_ok_chain by blast

section \<open>The rounded size\<close>

lemma and_not_mask_eq: "(w :: size_t) AND NOT (mask j) = w - take_bit j w"
proof -
  have "w AND NOT (mask j) = push_bit j (drop_bit j w)"
    by (rule bit_word_eqI) (auto simp: bit_simps)
  then show ?thesis
    by (metis add_diff_cancel_right' bits_ident)
qed

lemma unat_and_not_mask: "unat ((w :: size_t) AND NOT (mask j)) = unat w - unat w mod 2 ^ j"
proof -
  have tb: "unat (take_bit j w) = unat w mod 2 ^ j"
    by (metis take_bit_eq_mod unsigned_take_bit_eq)
  have le: "take_bit j w \<le> w"
    unfolding word_le_nat_alt tb by simp
  have "unat (w - take_bit j w) = unat w - unat (take_bit j w)"
    using le by (rule unat_sub)
  then show ?thesis
    by (simp only: and_not_mask_eq tb)
qed

lemma unat_power_lower64: "j < 64 \<Longrightarrow> unat (2 ^ j :: size_t) = 2 ^ j"
proof -
  assume j: "j < 64"
  have "(2 ^ j :: size_t) = of_nat (2 ^ j)" by simp
  then have "unat (2 ^ j :: size_t) = (2 ^ j) mod 2 ^ 64"
    by (simp only: unat_of_nat len_of_numeral_defs) simp
  moreover have "(2::nat) ^ j < 2 ^ 64" using j by (rule power_strict_increasing) simp
  ultimately show ?thesis by simp
qed

lemma max_t_pow2:
  assumes "k < 64"
  shows "\<exists>j. j < 64 \<and> 3 \<le> j \<and> max_t 8 (2 ^ k) = 2 ^ j \<and> unat (max_t 8 (2 ^ k)) = max 8 (2 ^ k)"
proof (cases "k < 3")
  case True
  then have "k = 0 \<or> k = 1 \<or> k = 2" by arith
  then have "max_t 8 (2 ^ k) = 2 ^ 3" "max (8::nat) (2 ^ k) = 8"
    by (auto simp: max_t_def)
  then show ?thesis by (intro exI [of _ 3]) simp
next
  case False
  then have k3: "3 \<le> k" by simp
  have "(2::nat) ^ 3 \<le> 2 ^ k" using k3 by (rule power_increasing) simp
  then have ge: "(8::nat) \<le> 2 ^ k" by simp
  have u: "unat (2 ^ k :: size_t) = 2 ^ k" using assms by (simp add: unat_power_lower64)
  have "\<not> (8 :: size_t) > 2 ^ k"
    using ge u by (simp add: word_less_nat_alt)
  then have "max_t 8 (2 ^ k) = 2 ^ k" by (simp add: max_t_def)
  with assms k3 u ge show ?thesis by (intro exI [of _ k]) (simp add: max_def)
qed

lemma align_size_unat:
  assumes j: "j < 64" and a: "max_t 8 align = 2 ^ j" and nov: "unat sz + 2 ^ j \<le> 2 ^ 64"
  shows "unat (align_size sz align) =
           (if unat sz mod 2 ^ j = 0 then unat sz else unat sz - unat sz mod 2 ^ j + 2 ^ j)"
proof -
  let ?s = "sz AND NOT (mask j)"
  have al: "align_size sz align = (if ?s \<noteq> sz then ?s + 2 ^ j else ?s)"
    by (simp add: align_size_def a Let_def mask_eq_exp_minus_1)
  have us: "unat ?s = unat sz - unat sz mod 2 ^ j" by (rule unat_and_not_mask)
  have ml: "unat sz mod 2 ^ j \<le> unat sz" by simp
  have neq: "?s \<noteq> sz \<longleftrightarrow> unat sz mod 2 ^ j \<noteq> 0"
  proof -
    have "?s = sz \<longleftrightarrow> unat ?s = unat sz" by (simp add: word_unat_eq_iff)
    also have "\<dots> \<longleftrightarrow> unat sz mod 2 ^ j = 0" using us ml by arith
    finally show ?thesis by simp
  qed
  have up: "unat (2 ^ j :: size_t) = 2 ^ j" using j by (simp add: unat_power_lower64)
  show ?thesis
  proof (cases "unat sz mod 2 ^ j = 0")
    case True
    then show ?thesis using al neq us by simp
  next
    case False
    have pos: "0 < unat sz mod 2 ^ j" using False by simp
    have "unat ?s + unat (2 ^ j :: size_t) < 2 ^ 64"
      using us up nov pos ml by arith
    then have "unat (?s + 2 ^ j) = unat ?s + unat (2 ^ j :: size_t)"
      using unat_add_lem [of ?s "2 ^ j"] by simp
    then show ?thesis using al neq us up False by simp
  qed
qed

lemma round_up_least:
  fixes a n :: nat
  assumes "0 < a"
  defines "r \<equiv> (if n mod a = 0 then n else n - n mod a + a)"
  shows "a dvd r \<and> n \<le> r \<and> (\<forall>r'. a dvd r' \<and> n \<le> r' \<longrightarrow> r \<le> r')"
proof -
  have nr: "n \<le> r"
  proof -
    have "n mod a < a" using assms(1) by simp
    then show ?thesis unfolding r_def by auto 
  qed
  have dv: "a dvd r"
  proof (cases "n mod a = 0")
    case True then show ?thesis unfolding r_def by auto
  next
    case False
    have "a dvd (n - n mod a)" by (rule dvd_minus_mod)
    then have "a dvd (n - n mod a + a)" by (rule dvd_add) (rule dvd_refl)
    moreover have "r = n - n mod a + a" using False unfolding r_def by (simp only: if_False)
    ultimately show ?thesis by (simp only:)
  qed
  have least: "r \<le> r'" if h: "a dvd r'" "n \<le> r'" for r'
  proof (cases "n mod a = 0")
    case True then show ?thesis using h unfolding r_def by simp
  next
    case False
    obtain q where q: "r' = a * q" using h(1) by (auto simp: dvd_def)
    have n_eq: "n = a * (n div a) + n mod a" by simp
    have "n div a < q"
    proof (rule ccontr)
      assume "\<not> n div a < q"
      then have "q \<le> n div a" by simp
      then have "a * q \<le> a * (n div a)" by simp
      with n_eq False have "a * q < n" by arith
      with q h(2) show False by simp
    qed
    then have "Suc (n div a) \<le> q" by simp
    then have "a * Suc (n div a) \<le> a * q" by (rule mult_le_mono2)
    moreover have "n - n mod a = a * (n div a)" by (simp add: minus_mod_eq_mult_div)
    ultimately show ?thesis using False q unfolding r_def by simp
  qed
  show ?thesis using nr dv least by blast
qed




section \<open>A fresh block\<close>


lemma alloc_scan_init_too_big:
  assumes "16336 < unat sz" "unat sz \<le> 16376"
  shows "alloc_scan (init m) sz 0 = EndReached"
proof -
  have "unat (sz + 16) = unat sz + unat (16 :: size_t)"
    using unat_add_lem [of sz 16] assms by simp
  then have nofit: "(16352 :: size_t) < sz + 16"
    using assms by (simp add: word_less_nat_alt)
  show ?thesis
    apply (subst alloc_scan.simps)
    apply (simp add: init_headers valid_signature_def valid_sig_def available_def next_header_def
        Signature_distinct data_size_eq header_size_def nofit)
    apply (subst alloc_scan.simps)
    apply (simp add: init_headers valid_signature_def valid_sig_def available_def next_header_def
        Signature_distinct data_size_eq header_size_def nofit)
    done
qed


lemma max_t_small: "align \<le> 8 \<Longrightarrow> max_t 8 align = 8"
  by (auto simp: max_t_def)

lemma align_size_gap:
  assumes "align \<le> 8" "16336 < unat sz" "unat sz \<le> 16376"
  shows "sz \<le> align_size sz align \<and> 16336 < unat (align_size sz align) \<and>
         unat (align_size sz align) \<le> 16376"
proof -
  have "max_t 8 align = 2 ^ 3" using assms(1) by (simp add: max_t_small)
  then have "unat (align_size sz align) =
      (if unat sz mod 2 ^ 3 = 0 then unat sz else unat sz - unat sz mod 2 ^ 3 + 2 ^ 3)"
    using assms by (intro align_size_unat) simp_all
  then have "unat sz \<le> unat (align_size sz align) \<and> 16336 < unat (align_size sz align) \<and>
         unat (align_size sz align) \<le> 16376"
    using assms(2,3) by (simp split: if_splits) presburger
  then show ?thesis by (simp add: word_le_nat_alt)
qed

lemma alloc_gap:
  assumes "blocks s this = Some b" "m_data b = init mm" "m_next b = None" "this < os_next s"
    and "align \<noteq> 0" "align \<le> 8" "16336 < unat sz" "unat sz \<le> 16376"
  shows "alloc k s this sz align = (if os_left s < k then Crash else OutOfFuel)"
  using assms
proof (induction k arbitrary: s this b mm sz align)
  case 0
  then show ?case by simp
next
  case (Suc k)
  let ?sz = "align_size sz align"
  have g: "sz \<le> ?sz" "16336 < unat ?sz" "unat ?sz \<le> 16376"
    using align_size_gap [OF Suc.prems(6,7,8)] by simp_all
  have scan: "alloc_scan (m_data b) ?sz 0 = EndReached"
    using g Suc.prems(2) by (simp add: alloc_scan_init_too_big)
  show ?case
  proof (cases "os_left s = 0")
    case True
    then show ?thesis
      using Suc.prems g scan
      by (simp add: Let_def ensure_next_allocated_from_os_def mmap_def heap_block_size_def)
  next
    case False
    let ?a = "os_next s"
    let ?s0 = "s\<lparr>os_next := Suc (os_next s), os_left := os_left s - 1\<rparr>"
    let ?s' = "?s0\<lparr>blocks := (blocks ?s0)(this \<mapsto> b\<lparr>m_next := Some ?a\<rparr>,
                  ?a \<mapsto> HeapBlock_new (Some this) zeroes)\<rparr>"
    have en: "ensure_next_allocated_from_os s this = Some ?s'"
      using Suc.prems False by (simp add: ensure_next_allocated_from_os_def mmap_def heap_block_size_def)
    have ne: "this \<noteq> ?a" using Suc.prems(4) by simp
    have rec: "alloc k ?s' ?a ?sz (max_t 8 align) =
        (if os_left ?s' < k then Crash else OutOfFuel)"
      by (rule Suc.IH [where b = "HeapBlock_new (Some this) zeroes" and mm = zeroes])
         (use g Suc.prems(6) in \<open>simp_all add: HeapBlock_new_def max_t_small\<close>)
    show ?thesis
      using Suc.prems(1,5) g(1) scan en ne rec False
      by (auto simp add: Let_def)
  qed
qed

lemma my_malloc_16336:
  "\<exists>s. my_malloc (Suc 0) (start n) 16336 1 = Return (Ptr 0 8) s"
  apply (simp add: my_malloc_def big_block_bound_def heap_block_size_def header_size_def
          ensure_initialized_def start_def g_heap_storage_def HeapBlock_new_def align_size_def max_t_def)
  apply (subst alloc_scan.simps)
  apply (simp add: init_headers valid_signature_def valid_sig_def available_def next_header_def
        Signature_distinct data_size_eq header_size_def Let_def)
  done

text \<open>
  Claim C1 at the failing input. A fresh block holds a payload of at most 16336 bytes
  (\<open>my_malloc_16336\<close>), but \<^verbatim>\<open>my_malloc\<close> sends sizes up to 16376 to the blocks. A
  request of 16337 bytes fits no block: every block passes it on to a block mapped for
  it, so the call goes on until the operating system refuses a mapping and then
  constructs a block at \<^verbatim>\<open>MAP_FAILED\<close>, for every number \<open>n\<close> of mappings granted and
  every fuel \<open>k\<close>; it never returns an address.
\<close>

theorem my_malloc_gap_never_returns:
  "my_malloc k (start n) 16337 1 = (if n < k then Crash else OutOfFuel)"
proof -
  have "alloc k (ensure_initialized (start n)) g_heap_storage 16337 1 =
      (if os_left (ensure_initialized (start n)) < k then Crash else OutOfFuel)"
    by (rule alloc_gap [where b = "HeapBlock_new None zeroes" and mm = zeroes])
       (simp_all add: ensure_initialized_def start_def HeapBlock_new_def g_heap_storage_def)
  then show ?thesis
    by (simp add: my_malloc_def big_block_bound_def heap_block_size_def header_size_def
          ensure_initialized_def start_def)
qed

text \<open>
  Claim C5 at the failing input: for a request of 0 bytes the found region is marked
  \<^verbatim>\<open>Used\<close> with size 0, \<^verbatim>\<open>next()\<close> of a header of size 0 is null, and the new
  \<^verbatim>\<open>Empty\<close> header is written through that null pointer.
\<close>

theorem my_malloc_zero_crashes: "my_malloc (Suc 0) (start n) 0 1 = Crash"
  apply (simp add: my_malloc_def big_block_bound_def heap_block_size_def header_size_def
          ensure_initialized_def start_def g_heap_storage_def HeapBlock_new_def align_size_def max_t_def)
  apply (subst alloc_scan.simps)
  apply (simp add: init_headers valid_signature_def valid_sig_def available_def next_header_def
        Signature_distinct data_size_eq header_size_def Let_def)
  done

section \<open>The walk of alloc on a laid-out block\<close>

lemma chain_not_last_avail: "chain m h (r # rs) \<Longrightarrow> avail r \<Longrightarrow> rs \<noteq> []"
  by (auto simp: avail_def Signature_distinct)

lemma chain_tail:
  "chain m h (r # rs) \<Longrightarrow> rs \<noteq> [] \<Longrightarrow> chain m (h + unat (snd r) + header_size) rs"
  by simp

lemma chain_inb: "chain m h rs \<Longrightarrow> h + header_size \<le> data_size"
  by (cases rs) simp_all

lemma alloc_scan_split:
  assumes c: "chain m h (r # rs)" and f: "fits sz r"
    and a: "alloc_scan m sz h = Placed m' p"
  shows "p = h + header_size" and "unat sz + 16 \<le> unat (snd r)" and "sz \<noteq> 0" and "rs \<noteq> []"
    and "m' = new_header (set_size (set_signature m h Used) h (ucast sz))
                (h + unat sz + header_size) Empty (ucast (ucast (snd r) - sz - 8 :: size_t))"
    and "chain m' h ((Used, ucast sz) # (Empty, ucast (ucast (snd r) - sz - 8 :: size_t)) # rs)"
proof -
  from c have inb: "h + header_size \<le> data_size" and sg: "signature_at m h = fst r"
    and sr: "size_at m h = snd r" by simp_all
  from f have av: "available m h" and nf: "\<not> (ucast (size_at m h) < sz + 8 * 2)"
    by (simp_all add: fits_def avail_def available_def sg sr)
  from f have "avail r" by (simp add: fits_def)
  with c have ne: "rs \<noteq> []" by (rule chain_not_last_avail)
  let ?m1 = "set_size (set_signature m h Used) h (ucast sz)"
  let ?d = "ucast (ucast (snd r) - sz - 8 :: size_t) :: u32"
  have valid: "valid_signature m h"
    using av by (auto simp: valid_signature_def valid_sig_def available_def)
  from a inb valid av nf
  have nz: "(ucast sz :: u32) \<noteq> 0"
    and nb: "\<not> data_size < h + unat (ucast sz :: u32) + header_size + header_size"
    and m': "m' = new_header ?m1 (h + unat (ucast sz :: u32) + header_size) Empty ?d"
    and p: "p = h + header_size"
    by (subst (asm) alloc_scan.simps,
        simp add: Let_def next_header_def sr header_size_def split: if_splits)+
  have small: "unat (ucast sz :: u32) \<le> 16352"
    using nb by (simp add: data_size_eq header_size_def)
  have ex: "unat sz + 16 \<le> unat (snd r)"
    using nf small unfolding sr by (intro fits_exact) simp_all
  have us: "unat (ucast sz :: u32) = unat sz" and ud: "unat ?d = unat (snd r) - unat sz - 8"
    using split_sizes [OF ex] by simp_all
  have sz0: "sz \<noteq> 0" using nz by (cases "sz = 0") simp_all
  let ?n = "h + unat sz + header_size"
  have m'': "m' = new_header ?m1 ?n Empty ?d" using m' us by simp
  from c ne have ct: "chain m (h + unat (snd r) + header_size) rs" by simp
  have nxt: "?n + unat ?d + header_size = h + unat (snd r) + header_size"
    using ud ex by (simp add: header_size_def)
  have frame: "m' x = m x" if "h + unat (snd r) + header_size \<le> x" for x
    using that ex unfolding m''
    by (simp add: new_header_frame set_size_frame set_signature_frame header_size_def)
  have "chain m' (h + unat (snd r) + header_size) rs = chain m (h + unat (snd r) + header_size) rs"
    by (rule chain_cong) (rule frame)
  with ct have ct': "chain m' (?n + unat ?d + header_size) rs"
    unfolding nxt by simp
  have "unat ?d \<noteq> 0" using ud ex by simp
  then have dnz: "?d \<noteq> 0" by (simp add: unat_0_iff)
  have inb2: "?n + header_size \<le> data_size" using nb us by simp
  have c2: "chain m' ?n ((Empty, ?d) # rs)"
    using ne ct' dnz inb2 unfolding m'' by simp
  have h1: "signature_at m' h = Used" "size_at m' h = ucast sz"
    unfolding m'' by (simp_all add: header_other header_size_def)
  show "chain m' h ((Used, ucast sz) # (Empty, ?d) # rs)"
    using inb h1 nz c2 us ne by simp
  show "p = h + header_size" by (fact p)
  show "unat sz + 16 \<le> unat (snd r)" by (fact ex)
  show "sz \<noteq> 0" by (fact sz0)
  show "rs \<noteq> []" by (fact ne)
  show "m' = new_header ?m1 ?n Empty ?d" by (fact m'')
qed

lemma alloc_scan_skip:
  assumes c: "chain m h (r # rs)" and f: "\<not> fits sz r"
    and a: "alloc_scan m sz h = Placed m' p"
  shows "rs \<noteq> []" and "alloc_scan m sz (h + unat (snd r) + header_size) = Placed m' p"
proof -
  from c have inb: "h + header_size \<le> data_size" and sg: "signature_at m h = fst r"
    and sr: "size_at m h = snd r" by simp_all
  from f have nf: "\<not> (available m h \<and> \<not> (ucast (size_at m h) < sz + 8 * 2))"
    by (simp add: fits_def avail_def available_def sg sr)
  from a inb nf have nz: "snd r \<noteq> 0"
    and rec: "alloc_scan m sz (h + unat (snd r) + header_size) = Placed m' p"
    by (subst (asm) alloc_scan.simps,
        auto simp add: Let_def next_header_def sr split: if_splits option.splits)+
  from c nz show "rs \<noteq> []" by auto
  show "alloc_scan m sz (h + unat (snd r) + header_size) = Placed m' p" by (fact rec)
qed

text \<open>The whole walk: the regions in front of the one taken do not fit and stay as they
  are, the first that fits is split, and only the two headers are written.\<close>

lemma alloc_scan_chain:
  assumes "chain m h rs" "alloc_scan m sz h = Placed m' p"
  shows "\<exists>pre r post. rs = pre @ r # post \<and> post \<noteq> [] \<and> (\<forall>x\<in>set pre. \<not> fits sz x) \<and>
           fits sz r \<and> p = h + total pre + header_size \<and> unat sz + 16 \<le> unat (snd r) \<and>
           sz \<noteq> 0 \<and>
           chain m' h (pre @ (Used, ucast sz) #
                         (Empty, ucast (ucast (snd r) - sz - 8 :: size_t)) # post) \<and>
           (\<forall>x. x + header_size < p \<or> (p \<le> x \<and> x < p + unat sz) \<or>
                p + unat sz + header_size \<le> x \<longrightarrow> m' x = m x)"
  using assms
proof (induction rs arbitrary: h)
  case Nil
  then show ?case by simp
next
  case (Cons r rs)
  show ?case
  proof (cases "fits sz r")
    case True
    note sp = alloc_scan_split [OF Cons.prems(1) True Cons.prems(2)]
    have frame: "\<forall>x. x + header_size < p \<or> (p \<le> x \<and> x < p + unat sz) \<or>
                p + unat sz + header_size \<le> x \<longrightarrow> m' x = m x"
      unfolding sp(5) sp(1)
      by (auto simp add: new_header_frame set_size_frame set_signature_frame header_size_def)
    show ?thesis
    proof (rule exI [of _ "[]"], rule exI [of _ r], rule exI [of _ rs], intro conjI)
      show "r # rs = [] @ r # rs" by simp
      show "rs \<noteq> []" by (fact sp(4))
      show "\<forall>x\<in>set []. \<not> fits sz x" by simp
      show "fits sz r" by (fact True)
      show "p = h + total [] + header_size" using sp(1) by simp
      show "unat sz + 16 \<le> unat (snd r)" by (fact sp(2))
      show "sz \<noteq> 0" by (fact sp(3))
      show "chain m' h ([] @ (Used, ucast sz) #
              (Empty, ucast (ucast (snd r) - sz - 8 :: size_t)) # rs)"
        using sp(6) by (simp only: append_Nil)
      show "\<forall>x. x + header_size < p \<or> (p \<le> x \<and> x < p + unat sz) \<or>
                p + unat sz + header_size \<le> x \<longrightarrow> m' x = m x" by (fact frame)
    qed
  next
    case False
    note sk = alloc_scan_skip [OF Cons.prems(1) False Cons.prems(2)]
    from Cons.prems(1) sk(1) have ct: "chain m (h + unat (snd r) + header_size) rs" by simp
    from Cons.IH [OF ct sk(2)] obtain pre r' post where
      rs: "rs = pre @ r' # post" and post: "post \<noteq> []" and nf: "\<forall>x\<in>set pre. \<not> fits sz x"
      and f: "fits sz r'" and p: "p = h + unat (snd r) + header_size + total pre + header_size"
      and ex: "unat sz + 16 \<le> unat (snd r')" and sz0: "sz \<noteq> 0"
      and ch: "chain m' (h + unat (snd r) + header_size)
                 (pre @ (Used, ucast sz) # (Empty, ucast (ucast (snd r') - sz - 8 :: size_t)) # post)"
      and frame: "\<forall>x. x + header_size < p \<or> (p \<le> x \<and> x < p + unat sz) \<or>
                p + unat sz + header_size \<le> x \<longrightarrow> m' x = m x"
      by blast
    have same: "m' x = m x" if "x < h + header_size" for x
    proof -
      from that p have "x + header_size < p" by simp
      with frame show ?thesis by blast
    qed
    have hd: "signature_at m' h = signature_at m h" "size_at m' h = size_at m h"
      by (rule signature_at_cong size_at_cong, rule same, simp add: header_size_def)+
    from Cons.prems(1) sk(1) have old: "snd r \<noteq> 0" "h + header_size \<le> data_size"
      "signature_at m h = fst r" "size_at m h = snd r" by simp_all
    have ne2: "pre @ (Used, ucast sz) # (Empty, ucast (ucast (snd r') - sz - 8 :: size_t)) # post \<noteq> []"
      by simp
    show ?thesis
    proof (rule exI [of _ "r # pre"], rule exI [of _ r'], rule exI [of _ post], intro conjI)
      show "r # rs = (r # pre) @ r' # post" using rs by simp
      show "post \<noteq> []" by (fact post)
      show "\<forall>x\<in>set (r # pre). \<not> fits sz x" using nf False by simp
      show "fits sz r'" by (fact f)
      show "p = h + total (r # pre) + header_size" using p by simp
      show "unat sz + 16 \<le> unat (snd r')" by (fact ex)
      show "sz \<noteq> 0" by (fact sz0)
      show "chain m' h ((r # pre) @ (Used, ucast sz) #
              (Empty, ucast (ucast (snd r') - sz - 8 :: size_t)) # post)"
        unfolding append_Cons chain.simps using hd old ch ne2 by simp
      show "\<forall>x. x + header_size < p \<or> (p \<le> x \<and> x < p + unat sz) \<or>
                p + unat sz + header_size \<le> x \<longrightarrow> m' x = m x" by (fact frame)
    qed
  qed
qed

section \<open>The merge on a laid-out block\<close>

lemma offsets_append:
  "offsets h (xs @ ys) = offsets h xs @ offsets (h + total xs) ys"
  by (induction xs arbitrary: h) (simp_all add: add_ac)

lemma offsets_ge: "x \<in> set (offsets h rs) \<Longrightarrow> h \<le> x"
proof (induction rs arbitrary: h)
  case Nil
  then show ?case by simp
next
  case (Cons r rs)
  from Cons.prems have "x = h \<or> x \<in> set (offsets (h + unat (snd r) + header_size) rs)"
    by simp
  then show ?case
  proof
    assume "x = h" then show ?thesis by simp
  next
    assume "x \<in> set (offsets (h + unat (snd r) + header_size) rs)"
    from Cons.IH [OF this] show ?thesis by simp
  qed
qed

lemma total_takeWhile_le: "total (takeWhile P rs) \<le> total rs"
proof -
  have "total rs = total (takeWhile P rs @ dropWhile P rs)" by simp
  also have "\<dots> = total (takeWhile P rs) + total (dropWhile P rs)" by (rule total_simps)
  finally show ?thesis by simp
qed

lemma available_avail:
  "signature_at m h = fst r \<Longrightarrow> available m h = avail r"
  by (simp add: available_def avail_def)

text \<open>The inner loop sums the run of available regions behind the header it starts at.\<close>

lemma merge_run_chain:
  assumes "chain m h (r # rs)" "rs \<noteq> []" "unat acc \<le> h + unat (snd r)"
  shows "\<exists>acc'. merge_run m h acc =
            Some (Some (h + header_size + unat (snd r) + total (takeWhile avail rs)), acc') \<and>
          unat acc' = unat acc + total (takeWhile avail rs) \<and>
          chain m (h + header_size + unat (snd r) + total (takeWhile avail rs))
            (dropWhile avail rs)"
  using assms
proof (induction rs arbitrary: h r acc)
  case Nil
  then show ?case by simp
next
  case (Cons r' rs')
  let ?n = "h + unat (snd r) + header_size"
  from Cons.prems(1) have inb: "h + header_size \<le> data_size" and sr: "size_at m h = snd r"
    and nz: "snd r \<noteq> 0" and ct: "chain m ?n (r' # rs')"
    by simp_all
  from ct have inb2: "?n + header_size \<le> data_size" and sg2: "signature_at m ?n = fst r'"
    and sr2: "size_at m ?n = snd r'"
    by simp_all
  have nh: "next_header m h = Some ?n" using sr nz by (simp add: next_header_def)
  have av: "available m ?n = avail r'" using sg2 by (rule available_avail)
  show ?case
  proof (cases "avail r'")
    case False
    have run: "merge_run m h acc = Some (Some ?n, acc)"
      using inb inb2 nh av False by (subst merge_run.simps) simp
    have tw: "takeWhile avail (r' # rs') = []" and dw: "dropWhile avail (r' # rs') = r' # rs'"
      using False by simp_all
    have off: "h + header_size + unat (snd r) + total [] = ?n" by simp
    show ?thesis
    proof (intro exI [of _ acc] conjI)
      show "merge_run m h acc =
          Some (Some (h + header_size + unat (snd r) + total (takeWhile avail (r' # rs'))), acc)"
        unfolding tw off by (fact run)
      show "unat acc = unat acc + total (takeWhile avail (r' # rs'))"
        unfolding tw by simp
      show "chain m (h + header_size + unat (snd r) + total (takeWhile avail (r' # rs')))
          (dropWhile avail (r' # rs'))"
        unfolding tw dw off by (fact ct)
    qed
  next
    case True
    with ct have ne: "rs' \<noteq> []" by (rule chain_not_last_avail)
    let ?acc2 = "acc + (ucast (snd r') + 8)"
    from chain_total [OF ct] have tot: "?n + (header_size + unat (snd r') + total rs') = data_size"
      by simp
    have small: "unat acc + unat (snd r') + 8 < 4294967296"
      using Cons.prems(3) tot by (simp add: data_size_eq header_size_def)
    have u2: "unat ?acc2 = unat acc + unat (snd r') + 8"
      using small by (rule merge_add)
    have le2: "unat ?acc2 \<le> ?n + unat (snd r')"
      using u2 Cons.prems(3) by (simp add: header_size_def)
    from Cons.IH [OF ct ne le2] obtain acc' where
      run: "merge_run m ?n ?acc2 =
              Some (Some (?n + header_size + unat (snd r') + total (takeWhile avail rs')), acc')"
      and ua: "unat acc' = unat ?acc2 + total (takeWhile avail rs')"
      and cd: "chain m (?n + header_size + unat (snd r') + total (takeWhile avail rs'))
                 (dropWhile avail rs')"
      by blast
    have step: "merge_run m h acc = merge_run m ?n ?acc2"
      using inb inb2 nh av True sr2 by (subst merge_run.simps) simp
    have tw: "total (takeWhile avail (r' # rs')) =
        header_size + unat (snd r') + total (takeWhile avail rs')"
      using True by simp
    have off: "h + header_size + unat (snd r) + total (takeWhile avail (r' # rs')) =
        ?n + header_size + unat (snd r') + total (takeWhile avail rs')"
      unfolding tw by simp
    have dw: "dropWhile avail (r' # rs') = dropWhile avail rs'" using True by simp
    show ?thesis
    proof (intro exI [of _ acc'] conjI)
      show "merge_run m h acc =
          Some (Some (h + header_size + unat (snd r) + total (takeWhile avail (r' # rs'))), acc')"
        unfolding off step by (fact run)
      show "unat acc' = unat acc + total (takeWhile avail (r' # rs'))"
        unfolding tw using ua u2 by (simp add: header_size_def)
      show "chain m (h + header_size + unat (snd r) + total (takeWhile avail (r' # rs')))
          (dropWhile avail (r' # rs'))"
        unfolding off dw by (fact cd)
    qed
  qed
qed

lemma unat_of_nat32: "k < 4294967296 \<Longrightarrow> unat (of_nat k :: u32) = k"
  by (simp add: unat_of_nat)

lemma ucast_of_nat_unat: "unat (x :: size_t) = k \<Longrightarrow> (ucast x :: u32) = of_nat k"
  by (simp add: word_unat_eq_iff unat_ucast_down unat_of_nat)

text \<open>
  The outer loop: the block ends up with the coalesced list of regions, and nothing but
  size fields of headers of the block is written.
\<close>

lemma merge_walk_chain:
  "chain m h rs \<Longrightarrow>
     \<exists>m'. merge_walk m h = Some m' \<and> chain m' h (coalesce rs) \<and>
          (\<forall>x. (\<forall>a\<in>set (offsets h rs). \<not> (a + 4 \<le> x \<and> x < a + 8)) \<longrightarrow> m' x = m x)"
proof (induction rs arbitrary: m h rule: coalesce.induct)
  case 1
  then show ?case by simp
next
  case (2 r rs)
  from "2.prems" have inb: "h + header_size \<le> data_size" and sg: "signature_at m h = fst r"
    and sr: "size_at m h = snd r"
    by simp_all
  have av: "available m h = avail r" using sg by (rule available_avail)
  show ?case
  proof (cases "rs = []")
    case True
    with "2.prems" have "snd r = 0" "fst r = EndEdge" by simp_all
    then have na: "\<not> avail r" and nh: "next_header m h = None"
      using sr by (simp_all add: avail_def Signature_distinct next_header_def)
    have "merge_walk m h = Some m"
      using inb av na nh by (subst merge_walk.simps) simp
    with True na "2.prems" show ?thesis by simp
  next
    case False
    with "2.prems" have nz: "snd r \<noteq> 0"
      and ct: "chain m (h + unat (snd r) + header_size) rs" by simp_all
    show ?thesis
    proof (cases "avail r")
      case na: False
      let ?n = "h + unat (snd r) + header_size"
      have nh: "next_header m h = Some ?n" using sr nz by (simp add: next_header_def)
      from "2.IH"(2) [OF na ct] obtain m' where
        w: "merge_walk m ?n = Some m'" and c': "chain m' ?n (coalesce rs)"
        and fr: "\<forall>x. (\<forall>a\<in>set (offsets ?n rs). \<not> (a + 4 \<le> x \<and> x < a + 8)) \<longrightarrow> m' x = m x"
        by blast
      have same: "m' x = m x" if "x < ?n" for x
      proof -
        have "\<forall>a\<in>set (offsets ?n rs). \<not> (a + 4 \<le> x \<and> x < a + 8)"
          using that by (auto dest: offsets_ge)
        with fr show ?thesis by blast
      qed
      have hd: "signature_at m' h = signature_at m h" "size_at m' h = size_at m h"
        by (rule signature_at_cong size_at_cong, rule same, simp add: header_size_def)+
      from c' have ne: "coalesce rs \<noteq> []" by auto
      have "merge_walk m h = Some m'"
        using inb av na nh w by (subst merge_walk.simps) simp
      moreover have "chain m' h (coalesce (r # rs))"
        using na hd sg sr inb nz ne c' by simp
      moreover have "\<forall>x. (\<forall>a\<in>set (offsets h (r # rs)). \<not> (a + 4 \<le> x \<and> x < a + 8)) \<longrightarrow>
          m' x = m x"
        using fr by simp
      ultimately show ?thesis by blast
    next
      case True
      let ?run = "takeWhile avail rs"
      let ?n = "h + header_size + unat (snd r) + total ?run"
      have le0: "unat (ucast (snd r) :: size_t) \<le> h + unat (snd r)"
        by (simp add: unat_ucast_up)
      from merge_run_chain [OF "2.prems" False le0] obtain acc' where
        run: "merge_run m h (ucast (snd r)) = Some (Some ?n, acc')"
        and ua: "unat acc' = unat (snd r) + total ?run"
        and cd: "chain m ?n (dropWhile avail rs)"
        by (auto simp: unat_ucast_up)
      let ?m1 = "set_size m h (ucast acc')"
      have cd1: "chain ?m1 ?n (dropWhile avail rs)"
        using cd by (subst chain_cong [where m = m]) (simp_all add: set_size_frame header_size_def)
      from "2.IH"(1) [OF True cd1] obtain m' where
        w: "merge_walk ?m1 ?n = Some m'" and c': "chain m' ?n (coalesce (dropWhile avail rs))"
        and fr: "\<forall>x. (\<forall>a\<in>set (offsets ?n (dropWhile avail rs)). \<not> (a + 4 \<le> x \<and> x < a + 8)) \<longrightarrow>
                  m' x = ?m1 x"
        by blast
      have same: "m' x = ?m1 x" if "x < ?n" for x
      proof -
        have "\<forall>a\<in>set (offsets ?n (dropWhile avail rs)). \<not> (a + 4 \<le> x \<and> x < a + 8)"
          using that by (auto dest: offsets_ge)
        with fr show ?thesis by blast
      qed
      have hd: "signature_at m' h = signature_at ?m1 h" "size_at m' h = size_at ?m1 h"
        by (rule signature_at_cong size_at_cong, rule same, simp add: header_size_def)+
      from chain_total [OF cd] have bound: "?n \<le> data_size" by simp
      define k where "k = unat (snd r) + total ?run"
      have small: "k < 4294967296"
        using bound by (simp add: data_size_eq k_def)
      have u32: "(ucast acc' :: u32) = of_nat k"
        using ua unfolding k_def by (rule ucast_of_nat_unat)
      have un: "unat (of_nat k :: u32) = k"
        using small by (rule unat_of_nat32)
      have pos: "0 < k" using "2.prems" False by (simp add: unat_gt_0 k_def)
      have nz': "(of_nat k :: u32) \<noteq> 0"
      proof
        assume "(of_nat k :: u32) = 0"
        then have "unat (of_nat k :: u32) = 0" by simp
        with un pos show False by simp
      qed
      from c' have ne: "coalesce (dropWhile avail rs) \<noteq> []" by auto
      have nxt: "h + unat (of_nat k :: u32) + header_size = ?n"
        unfolding un by (simp add: k_def)
      have walk: "merge_walk m h = Some m'"
        using inb av True run w sr by (subst merge_walk.simps) (simp add: Let_def)
      have co: "coalesce (r # rs) = (fst r, of_nat k) # coalesce (dropWhile avail rs)"
        using True unfolding k_def by (subst coalesce.simps) (simp only: if_True)
      have s1: "signature_at m' h = fst r" using hd(1) sg by simp
      have s2: "size_at m' h = of_nat k" using hd(2) u32 by simp
      have c'': "chain m' (h + unat (of_nat k :: u32) + header_size) (coalesce (dropWhile avail rs))"
        unfolding nxt by (fact c')
      have ch: "chain m' h (coalesce (r # rs))"
        unfolding co using inb s1 s2 nz' ne c'' by (simp del: unsigned_of_nat)
      have sub: "set (offsets ?n (dropWhile avail rs)) \<subseteq> set (offsets h (r # rs))"
      proof -
        have "offsets h (r # rs) = offsets h ((r # ?run) @ dropWhile avail rs)" by simp
        also have "\<dots> = offsets h (r # ?run) @ offsets (h + total (r # ?run)) (dropWhile avail rs)"
          by (rule offsets_append)
        finally show ?thesis by (auto simp: add_ac)
      qed
      have frame: "\<forall>x. (\<forall>a\<in>set (offsets h (r # rs)). \<not> (a + 4 \<le> x \<and> x < a + 8)) \<longrightarrow> m' x = m x"
      proof (intro allI impI)
        fix x
        assume a: "\<forall>a\<in>set (offsets h (r # rs)). \<not> (a + 4 \<le> x \<and> x < a + 8)"
        then have "\<forall>a\<in>set (offsets ?n (dropWhile avail rs)). \<not> (a + 4 \<le> x \<and> x < a + 8)"
          using sub by blast
        with fr have "m' x = ?m1 x" by blast
        moreover from a have "\<not> (h + 4 \<le> x \<and> x < h + 8)" by simp
        then have "?m1 x = m x" by (intro set_size_frame) auto
        ultimately show "m' x = m x" by simp
      qed
      from walk ch frame show ?thesis by blast
    qed
  qed
qed

section \<open>Marking a region freed and coalescing\<close>

lemma coalesce_hd_avail:
  "coalesce rs = y # ys \<Longrightarrow> \<exists>x xs. rs = x # xs \<and> avail y = avail x"
  by (cases rs) (auto simp: avail_def split: if_splits)

lemma dropWhile_hd_not: "dropWhile P xs = y # ys \<Longrightarrow> \<not> P y"
  using hd_dropWhile [of P xs] by (metis list.sel(1) list.distinct(1))

lemma coalesced_coalesce: "coalesced (coalesce rs)"
proof (induction rs rule: coalesce.induct)
  case 1
  show ?case by simp
next
  case (2 r rs)
  show ?case
  proof (cases "avail r")
    case True
    note ih = "2.IH"(1) [OF True]
    show ?thesis
    proof (cases "coalesce (dropWhile avail rs)")
      case Nil
      with True show ?thesis by simp
    next
      case (Cons y ys)
      from coalesce_hd_avail [OF Cons] obtain x xs where
        x: "dropWhile avail rs = x # xs" "avail y = avail x" by blast
      from dropWhile_hd_not [OF x(1)] x(2) have "\<not> avail y" by simp
      with True Cons ih show ?thesis by simp
    qed
  next
    case False
    note ih = "2.IH"(2) [OF False]
    show ?thesis
    proof (cases "coalesce rs")
      case Nil
      with False show ?thesis by simp
    next
      case (Cons y ys)
      with False ih show ?thesis by simp
    qed
  qed
qed

lemma offsets_apart:
  "a \<in> set (offsets h rs) \<Longrightarrow> b \<in> set (offsets h rs) \<Longrightarrow>
     a = b \<or> a + header_size \<le> b \<or> b + header_size \<le> a"
proof (induction rs arbitrary: h)
  case Nil
  then show ?case by simp
next
  case (Cons r rs)
  let ?n = "h + unat (snd r) + header_size"
  from Cons.prems have a: "a = h \<or> a \<in> set (offsets ?n rs)"
    and b: "b = h \<or> b \<in> set (offsets ?n rs)" by simp_all
  show ?case
  proof (cases "a = h")
    case ah: True
    show ?thesis
    proof (cases "b = h")
      case True
      with ah show ?thesis by simp
    next
      case False
      with b have "?n \<le> b" by (auto dest: offsets_ge)
      with ah show ?thesis by simp
    qed
  next
    case ah: False
    with a have an: "a \<in> set (offsets ?n rs)" by simp
    show ?thesis
    proof (cases "b = h")
      case True
      from an have "?n \<le> a" by (rule offsets_ge)
      with True show ?thesis by simp
    next
      case False
      with b have "b \<in> set (offsets ?n rs)" by simp
      with an show ?thesis by (rule Cons.IH)
    qed
  qed
qed

lemma offsets_mark_freed: "offsets h (mark_freed h0 h rs) = offsets h rs"
  by (induction rs arbitrary: h) simp_all

lemma layout_header_offsets:
  "chain m 0 rs \<Longrightarrow> header_offsets m = offsets 0 rs"
  by (simp add: header_offsets_def chain_regions map_fst_zip)

text \<open>Overwriting the signature of a region that is not the end sentinel keeps the
  layout.\<close>

lemma chain_mark_freed:
  assumes "chain m h rs" "h0 \<in> set (offsets h rs)" "h0 + header_size < data_size"
  shows "chain (set_signature m h0 Freed) h (mark_freed h0 h rs)"
  using assms
proof (induction rs arbitrary: h)
  case Nil
  then show ?case by simp
next
  case (Cons r rs)
  let ?n = "h + unat (snd r) + header_size"
  let ?m = "set_signature m h0 Freed"
  from Cons.prems(1) have inb: "h + header_size \<le> data_size"
    and sg: "signature_at m h = fst r" and sr: "size_at m h = snd r" by simp_all
  show ?case
  proof (cases "h = h0")
    case True
    with Cons.prems(1,3) have ne: "rs \<noteq> []" by (cases "rs = []") simp_all
    with Cons.prems(1) have nz: "snd r \<noteq> 0" and ct: "chain m ?n rs" by simp_all
    have "chain ?m ?n rs = chain m ?n rs"
      by (rule chain_cong) (simp add: set_signature_frame True [symmetric] header_size_def)
    with ct have "chain ?m ?n rs" by simp
    with True inb sr nz ne show ?thesis by simp
  next
    case False
    with Cons.prems(2) have mem: "h0 \<in> set (offsets ?n rs)" by simp
    then have ne: "rs \<noteq> []" by auto
    with Cons.prems(1) have nz: "snd r \<noteq> 0" and ct: "chain m ?n rs" by simp_all
    from mem have ge: "?n \<le> h0" by (rule offsets_ge)
    have hd: "signature_at ?m h = signature_at m h" "size_at ?m h = size_at m h"
      using ge by (simp_all add: header_other header_size_def)
    from Cons.IH [OF ct mem Cons.prems(3)] have "chain ?m ?n (mark_freed h0 ?n rs)" .
    moreover from this have "mark_freed h0 ?n rs \<noteq> []" by auto
    ultimately show ?thesis using False inb hd sg sr nz by simp
  qed
qed

text \<open>
  What \<^verbatim>\<open>free\<close> does to the data area of its block: the header is marked, the walk
  coalesces the block, the layout is kept and the mark stays readable.
\<close>

lemma free_block:
  assumes c: "chain m 0 rs" and h: "h \<in> set (offsets 0 rs)" and nl: "h + header_size < data_size"
  shows "\<exists>m'. merge_walk (set_signature m h Freed) 0 = Some m' \<and>
           chain m' 0 (coalesce (mark_freed h 0 rs)) \<and> signature_at m' h = Freed"
proof -
  let ?m = "set_signature m h Freed"
  have cm: "chain ?m 0 (mark_freed h 0 rs)" using c h nl by (rule chain_mark_freed)
  from merge_walk_chain [OF cm] obtain m' where
    w: "merge_walk ?m 0 = Some m'" and c': "chain m' 0 (coalesce (mark_freed h 0 rs))"
    and fr: "\<forall>x. (\<forall>a\<in>set (offsets 0 (mark_freed h 0 rs)). \<not> (a + 4 \<le> x \<and> x < a + 8)) \<longrightarrow>
               m' x = ?m x"
    by blast
  have same: "m' x = ?m x" if x: "h \<le> x" "x < h + 4" for x
  proof -
    have "\<not> (a + 4 \<le> x \<and> x < a + 8)" if a: "a \<in> set (offsets 0 rs)" for a
      using offsets_apart [OF a h] x by (auto simp: header_size_def)
    then have "\<forall>a\<in>set (offsets 0 (mark_freed h 0 rs)). \<not> (a + 4 \<le> x \<and> x < a + 8)"
      by (simp add: offsets_mark_freed)
    with fr show ?thesis by blast
  qed
  have "signature_at m' h = signature_at ?m h"
    by (rule signature_at_cong) (rule same)
  then have "signature_at m' h = Freed" by simp
  with w c' show ?thesis by blast
qed

section \<open>free on a laid-out block\<close>

lemma free_in_block:
  assumes "blocks s this = Some b" "header_size \<le> off" "off < data_size"
  shows "free (Suc k) s this (Ptr this off) =
     (if freed (m_data b) (off - header_size) then Abort MsgAlreadyFreed
      else if \<not> valid_signature (m_data b) (off - header_size)
        then Abort (MsgFreeInvalidSignature (signature_at (m_data b) (off - header_size))
                      (Ptr this (off - header_size)))
      else merge_and_cleanup
             (s\<lparr>blocks := (blocks s)
                  (this \<mapsto> b\<lparr>m_data := set_signature (m_data b) (off - header_size) Freed\<rparr>)\<rparr>)
             this)"
  using assms by (simp add: in_data_def offset_of_def Let_def)

lemma unlink_block_unmaps: "unlink_block s this b p = Some s' \<Longrightarrow> blocks s' this = None"
  by (auto simp: unlink_block_def Let_def split: option.splits)

lemma merge_and_cleanup_kept:
  assumes "blocks s this = Some b" "merge_walk (m_data b) 0 = Some m'"
    and "merge_and_cleanup s this = Return () s'" "blocks s' this \<noteq> None"
  shows "s' = s\<lparr>blocks := (blocks s)(this \<mapsto> b\<lparr>m_data := m'\<rparr>)\<rparr>"
  using assms
  by (auto simp: merge_and_cleanup_def Let_def split: option.splits if_splits
           dest: unlink_block_unmaps)

lemma example_block_400:
  "chain block_400 0 [(Used, 400), (Empty, 15944), (EndEdge, 0)]"
  by (simp add: block_400_def init_headers header_other data_size_eq header_size_def)

lemma my_malloc_400: "my_malloc (Suc 0) (start 0) 400 1 = Return (Ptr 0 8) (state_with block_400)"
  apply (simp add: my_malloc_def big_block_bound_def heap_block_size_def header_size_def
          ensure_initialized_def start_def g_heap_storage_def HeapBlock_new_def align_size_def
          max_t_def state_with_def)
  apply (subst alloc_scan.simps)
  apply (simp add: init_headers valid_signature_def valid_sig_def available_def next_header_def
        Signature_distinct data_size_eq header_size_def Let_def block_400_def)
  done

lemma alloc_scan_400: "alloc_scan (init zeroes) 400 0 = Placed block_400 8"
  by (subst alloc_scan.simps)
     (simp add: init_headers valid_signature_def valid_sig_def available_def next_header_def
        Signature_distinct data_size_eq header_size_def Let_def block_400_def)

lemma block_400_headers:
  "signature_at block_400 0 = Used" "size_at block_400 0 = 400"
  "signature_at block_400 408 = Empty" "size_at block_400 408 = 15944"
  "signature_at block_400 16360 = EndEdge" "size_at block_400 16360 = 0"
  by (simp_all add: block_400_def init_headers header_other)

lemma merge_walk_400: "merge_walk (set_signature block_400 0 Freed) 0 = Some block_400_freed"
proof -
  let ?m2 = "set_signature block_400 0 Freed"
  note hb = block_400_headers
  have hs: "signature_at ?m2 0 = Freed" "size_at ?m2 0 = 400"
    "signature_at ?m2 408 = Empty" "size_at ?m2 408 = 15944"
    "signature_at ?m2 16360 = EndEdge" "size_at ?m2 16360 = 0"
    by (simp_all add: hb header_other)
  have run2: "merge_run ?m2 408 16352 = Some (Some 16360, 16352)"
    by (subst merge_run.simps)
       (simp add: hs hb next_header_def available_def Signature_distinct data_size_eq
          header_size_def)
  have run1: "merge_run ?m2 0 400 = Some (Some 16360, 16352)"
    by (subst merge_run.simps)
       (simp add: hs hb next_header_def available_def Signature_distinct data_size_eq
          header_size_def run2)
  have hs3: "signature_at block_400_freed 16360 = EndEdge" "size_at block_400_freed 16360 = 0"
    by (simp_all add: block_400_freed_def hs hb header_other)
  have w2: "merge_walk block_400_freed 16360 = Some block_400_freed"
    by (subst merge_walk.simps)
       (simp add: hs3 next_header_def available_def Signature_distinct data_size_eq
          header_size_def)
  show ?thesis
    by (subst merge_walk.simps)
       (simp add: hs hb next_header_def available_def Signature_distinct data_size_eq
          header_size_def run1 w2 [unfolded block_400_freed_def] block_400_freed_def)
qed

lemma block_400_freed_headers:
  "signature_at block_400_freed 0 = Freed" "size_at block_400_freed 0 = 16352"
  "signature_at block_400_freed 16360 = EndEdge" "size_at block_400_freed 16360 = 0"
  by (simp_all add: block_400_freed_def block_400_headers header_other)

lemma free_400:
  "free (Suc 0) (state_with block_400) 0 (Ptr 0 8) = Return () (state_with block_400_freed)"
  by (simp add: state_with_def g_heap_storage_def in_data_def offset_of_def header_size_def
        data_size_eq freed_def valid_signature_def valid_sig_def block_400_headers
        Signature_distinct merge_and_cleanup_def merge_walk_400 whole_block_free_def
        available_def block_400_freed_headers)

lemma my_free_400:
  "my_free (Suc 0) (state_with block_400) (Ptr 0 8) = Return () (state_with block_400_freed)"
proof -
  have "signature_before (state_with block_400) (Ptr 0 8) = Some Used"
    by (simp add: signature_before_def state_with_def g_heap_storage_def header_size_def
          data_size_eq block_400_headers)
  then show ?thesis
    using free_400
    by (simp add: my_free_def Signature_distinct state_with_def g_heap_storage_def)
qed

section \<open>The layout invariant over the heap\<close>

lemma alloc_scan_layout:
  assumes "layout_ok m" "alloc_scan m sz 0 = Placed m' p"
  shows "layout_ok m'"
proof -
  from assms(1) obtain rs where "chain m 0 rs" by (auto simp: layout_ok_chain)
  from alloc_scan_chain [OF this assms(2)] show ?thesis
    unfolding layout_ok_chain by blast
qed

lemma free_block_layout:
  assumes "layout_ok m" "h \<in> set (header_offsets m)" "h + header_size < data_size"
  shows "\<exists>m'. merge_walk (set_signature m h Freed) 0 = Some m' \<and> layout_ok m'"
proof -
  from assms(1) obtain rs where c: "chain m 0 rs" by (auto simp: layout_ok_chain)
  have "h \<in> set (offsets 0 rs)" using assms(2) layout_header_offsets [OF c] by simp
  from free_block [OF c this assms(3)] show ?thesis
    unfolding layout_ok_chain by blast
qed

lemma heap_ok_initialized: "g_heap_initialized s \<Longrightarrow> heap_ok s = all_laid_out s"
  by (simp add: heap_ok_def all_laid_out_def)

lemma all_laid_out_update:
  "all_laid_out s \<Longrightarrow> layout_ok (m_data b) \<Longrightarrow>
     all_laid_out (s\<lparr>blocks := (blocks s)(a \<mapsto> b)\<rparr>)"
  by (simp add: all_laid_out_def)

lemma all_laid_out_D: "all_laid_out s \<Longrightarrow> blocks s a = Some b \<Longrightarrow> layout_ok (m_data b)"
  by (auto simp: all_laid_out_def)

lemma ensure_next_laid_out:
  assumes "all_laid_out s" "ensure_next_allocated_from_os s this = Some s'"
  shows "all_laid_out s'"
proof (cases "blocks s this")
  case None
  with assms show ?thesis by (simp add: ensure_next_allocated_from_os_def)
next
  case (Some b)
  show ?thesis
  proof (cases "m_next b")
    case (Some n)
    with \<open>blocks s this = Some b\<close> assms show ?thesis
      by (simp add: ensure_next_allocated_from_os_def)
  next
    case None
    from assms(1) \<open>blocks s this = Some b\<close> have lb: "layout_ok (m_data b)"
      by (rule all_laid_out_D)
    from assms None \<open>blocks s this = Some b\<close> lb show ?thesis
      by (auto simp: ensure_next_allocated_from_os_def mmap_def heap_block_size_def all_laid_out_def
            HeapBlock_new_def layout_ok_init split: if_splits)
  qed
qed

lemma alloc_laid_out:
  "all_laid_out s \<Longrightarrow> alloc k s this sz align = Return q s' \<Longrightarrow> all_laid_out s'"
proof (induction k arbitrary: s this sz align)
  case 0
  then show ?case by simp
next
  case (Suc k)
  show ?case
  proof (cases "align = 0")
    case True
    with Suc.prems show ?thesis by (auto simp: print_def all_laid_out_def)
  next
    case False
    let ?sz = "align_size sz align"
    from Suc.prems(2) False obtain b where b: "blocks s this = Some b"
      by (auto simp: Let_def split: if_splits option.splits)
    from Suc.prems(1) b have lb: "layout_ok (m_data b)" by (rule all_laid_out_D)
    show ?thesis
    proof (cases "alloc_scan (m_data b) ?sz 0")
      case (Placed m' p)
      with Suc.prems(2) False b
      have s': "s' = s\<lparr>blocks := (blocks s)(this \<mapsto> b\<lparr>m_data := m'\<rparr>)\<rparr>"
        by (auto simp: Let_def split: if_splits)
      from lb Placed have "layout_ok m'" by (rule alloc_scan_layout)
      with Suc.prems(1) show ?thesis unfolding s' by (intro all_laid_out_update) simp_all
    next
      case EndReached
      with Suc.prems(2) False b obtain s1 b1 n where
        en: "ensure_next_allocated_from_os s this = Some s1"
        and rec: "alloc k s1 n ?sz (max_t 8 align) = Return q s'"
        by (auto simp: Let_def split: if_splits option.splits)
      from Suc.prems(1) en have "all_laid_out s1" by (rule ensure_next_laid_out)
      from Suc.IH [OF this rec] show ?thesis .
    next
      case NoBlock
      with Suc.prems False b show ?thesis
        by (auto simp: Let_def print_def all_laid_out_def split: if_splits)
    next
      case (BadSignature sg h)
      with Suc.prems False b show ?thesis by (auto simp: Let_def split: if_splits)
    next
      case Wild
      with Suc.prems False b show ?thesis by (auto simp: Let_def split: if_splits)
    qed
  qed
qed

lemma unlink_block_laid_out:
  "all_laid_out s \<Longrightarrow> unlink_block s this b p = Some s' \<Longrightarrow> all_laid_out s'"
  by (auto simp: unlink_block_def Let_def all_laid_out_def split: option.splits if_splits)

lemma merge_and_cleanup_laid_out:
  assumes "all_laid_out s" "blocks s this = Some b" "merge_walk (m_data b) 0 = Some m'"
    "layout_ok m'" "merge_and_cleanup s this = Return () s'"
  shows "all_laid_out s'"
proof -
  let ?s1 = "s\<lparr>blocks := (blocks s)(this \<mapsto> b\<lparr>m_data := m'\<rparr>)\<rparr>"
  have l1: "all_laid_out ?s1"
    using assms(1,4) by (intro all_laid_out_update) simp_all
  from assms(2,3,5) have "s' = ?s1 \<or> (\<exists>p. unlink_block ?s1 this (b\<lparr>m_data := m'\<rparr>) p = Some s')"
    by (auto simp: merge_and_cleanup_def Let_def split: if_splits option.splits)
  with l1 show ?thesis by (auto dest: unlink_block_laid_out)
qed

lemma free_laid_out:
  "all_laid_out s \<Longrightarrow> region_address s addr \<Longrightarrow> free k s this addr = Return () s' \<Longrightarrow>
     all_laid_out s'"
proof (induction k arbitrary: this)
  case 0
  then show ?case by simp
next
  case (Suc k)
  from Suc.prems(3) obtain b where b: "blocks s this = Some b"
    by (auto split: option.splits)
  show ?case
  proof (cases "in_data this addr")
    case False
    with Suc.prems(3) b obtain n where "free k s n addr = Return () s'"
      by (auto split: option.splits)
    from Suc.IH [OF Suc.prems(1,2) this] show ?thesis .
  next
    case True
    then obtain off where addr: "addr = Ptr this off" and off: "off < data_size"
      by (auto simp: in_data_def split: ptr.splits)
    from Suc.prems(2) addr b have ge: "header_size \<le> off"
      and mem: "off - header_size \<in> set (header_offsets (m_data b))"
      by (simp_all add: region_address_def)
    let ?h = "off - header_size"
    let ?b1 = "b\<lparr>m_data := set_signature (m_data b) ?h Freed\<rparr>"
    let ?s1 = "s\<lparr>blocks := (blocks s)(this \<mapsto> ?b1)\<rparr>"
    from Suc.prems(3) have mc: "merge_and_cleanup ?s1 this = Return () s'"
      unfolding addr free_in_block [OF b ge off] by (simp split: if_splits)
    from Suc.prems(1) b have lb: "layout_ok (m_data b)" by (rule all_laid_out_D)
    have nl: "?h + header_size < data_size" using ge off by simp
    from free_block_layout [OF lb mem nl] obtain m' where
      w: "merge_walk (set_signature (m_data b) ?h Freed) 0 = Some m'" and l': "layout_ok m'"
      by blast
    let ?s2 = "?s1\<lparr>blocks := (blocks ?s1)(this \<mapsto> ?b1\<lparr>m_data := m'\<rparr>)\<rparr>"
    have l2: "all_laid_out ?s2"
      using Suc.prems(1) l' by (simp add: all_laid_out_def)
    from mc w have "s' = ?s2 \<or> (\<exists>p. unlink_block ?s2 this (?b1\<lparr>m_data := m'\<rparr>) p = Some s')"
      by (auto simp: merge_and_cleanup_def Let_def split: if_splits option.splits)
    with l2 show ?thesis by (auto dest: unlink_block_laid_out)
  qed
qed

lemma ensure_initialized_laid_out:
  "heap_ok s \<Longrightarrow> all_laid_out (ensure_initialized s) \<and> g_heap_initialized (ensure_initialized s)"
  by (auto simp: heap_ok_def all_laid_out_def ensure_initialized_def HeapBlock_new_def
        layout_ok_init)

lemma my_malloc_heap_ok:
  assumes "heap_ok s" "my_malloc k s sz align = Return q s'"
  shows "heap_ok s'"
proof -
  let ?s = "ensure_initialized s"
  from assms(1) have l: "all_laid_out ?s" and i: "g_heap_initialized ?s"
    using ensure_initialized_laid_out by blast+
  show ?thesis
  proof (cases "sz > big_block_bound")
    case True
    with assms(2) have "blocks s' = blocks ?s"
      by (auto simp: my_malloc_def Let_def mmap_def heap_block_size_def print_def split: option.splits if_splits)
    with l show ?thesis by (simp add: heap_ok_def all_laid_out_def)
  next
    case False
    with assms(2) have "alloc k ?s g_heap_storage sz align = Return q s'"
      by (simp add: my_malloc_def Let_def)
    from alloc_laid_out [OF l this] show ?thesis
      by (simp add: heap_ok_def all_laid_out_def)
  qed
qed

lemma munmap_big_blocks:
  "blocks (munmap_big s header len) = blocks s"
  "g_heap_initialized (munmap_big s header len) = g_heap_initialized s"
  by (simp_all add: munmap_big_def Let_def split: ptr.splits nat.splits)

lemma my_free_heap_ok:
  assumes "heap_ok s" "region_address s addr" "my_free k s addr = Return () s'"
  shows "heap_ok s'"
proof -
  from assms(3) obtain sg where sg: "signature_before s addr = Some sg"
    by (auto simp: my_free_def split: option.splits)
  show ?thesis
  proof (cases "sg = BigBlock")
    case True
    with assms(3) sg have "blocks s' = blocks s" "g_heap_initialized s' = g_heap_initialized s"
      by (auto simp: my_free_def munmap_big_blocks print_def)
    with assms(1) show ?thesis by (simp add: heap_ok_def)
  next
    case False
    with assms(3) sg have i: "g_heap_initialized s"
      and f: "free k s g_heap_storage addr = Return () s'"
      by (auto simp: my_free_def split: if_splits)
    from assms(1) i have "all_laid_out s" by (simp add: heap_ok_initialized)
    from free_laid_out [OF this assms(2) f] show ?thesis
      by (simp add: heap_ok_def all_laid_out_def)
  qed
qed

lemma heap_ok_start: "heap_ok (start n)"
  by (simp add: heap_ok_def start_def)

section \<open>Giving a block back\<close>

lemma ucast_size_eq: "((ucast (x :: u32) :: size_t) = 16352) = (x = 16352)"
proof
  assume "(ucast x :: size_t) = 16352"
  then have "unat (ucast x :: size_t) = 16352" by simp
  then have "unat x = unat (16352 :: u32)" by (simp add: unat_ucast_up)
  then show "x = 16352" by (simp only: word_unat_eq_iff)
next
  assume "x = 16352"
  then show "(ucast x :: size_t) = 16352" by simp
qed

lemma whole_block_free_regions:
  assumes "layout_ok m"
  shows "whole_block_free m =
     (\<exists>sg. avail (sg, 16352) \<and> region_list m = [(sg, 16352), (EndEdge, 0)])"
proof -
  from assms have c: "chain m 0 (region_list m)" by (rule layout_ok_region_list)
  then obtain r rs where rl: "region_list m = r # rs" by (cases "region_list m") auto
  from c rl have sg: "signature_at m 0 = fst r" and sr: "size_at m 0 = snd r" by simp_all
  have wf: "whole_block_free m = (avail r \<and> snd r = 16352)"
    by (simp add: whole_block_free_def available_def avail_def sg sr data_size_eq header_size_def
          ucast_size_eq)
  show ?thesis
  proof
    assume "whole_block_free m"
    with wf have av: "avail r" and sz: "snd r = 16352" by simp_all
    from c have "chain m 0 (r # rs)" unfolding rl .
    from chain_not_last_avail [OF this av] have ne: "rs \<noteq> []" .
    with c rl sz have ct: "chain m 16360 rs" by (simp add: header_size_def)
    then obtain x xs where rs: "rs = x # xs" by (cases rs) auto
    have "xs = []"
    proof (rule ccontr)
      assume "xs \<noteq> []"
      with ct rs have "chain m (16360 + unat (snd x) + header_size) xs" by simp
      then have "16360 + unat (snd x) + header_size + header_size \<le> data_size"
        by (rule chain_inb)
      then show False by (simp add: data_size_eq header_size_def)
    qed
    with ct rs have "x = (EndEdge, 0)" by (auto simp: prod_eq_iff)
    with rl rs \<open>xs = []\<close> av sz have "avail (fst r, 16352) \<and> region_list m = [(fst r, 16352), (EndEdge, 0)]"
      by (auto simp: prod_eq_iff avail_def)
    then show "\<exists>sg. avail (sg, 16352) \<and> region_list m = [(sg, 16352), (EndEdge, 0)]" by blast
  next
    assume "\<exists>sg. avail (sg, 16352) \<and> region_list m = [(sg, 16352), (EndEdge, 0)]"
    with rl wf show "whole_block_free m" by (auto simp: avail_def)
  qed
qed

lemma merge_and_cleanup_keeps:
  assumes "blocks s this = Some b" "merge_walk (m_data b) 0 = Some m'"
    and "\<not> whole_block_free m' \<or> m_prev b = None"
  shows "merge_and_cleanup s this = Return () (s\<lparr>blocks := (blocks s)(this \<mapsto> b\<lparr>m_data := m'\<rparr>)\<rparr>)"
  using assms by (auto simp: merge_and_cleanup_def Let_def)

lemma merge_and_cleanup_unlinks:
  assumes b: "blocks s this = Some b" and w: "merge_walk (m_data b) 0 = Some m'"
    and wf: "whole_block_free m'" and p: "m_prev b = Some p" "blocks s p = Some pb" "p \<noteq> this"
    and n: "case m_next b of None \<Rightarrow> True | Some n \<Rightarrow> n \<noteq> this \<and> n \<noteq> p \<and> blocks s n \<noteq> None"
  shows "\<exists>s'. merge_and_cleanup s this = Return () s' \<and> blocks s' this = None \<and>
           blocks s' p = Some (pb\<lparr>m_next := m_next b\<rparr>) \<and>
           (\<forall>n nb. m_next b = Some n \<and> blocks s n = Some nb \<longrightarrow>
                    blocks s' n = Some (nb\<lparr>m_prev := Some p\<rparr>)) \<and>
           munmapped s' = munmapped s @ [(Ptr this 0, heap_block_size)] \<and>
           (\<forall>a. a \<noteq> this \<and> a \<noteq> p \<and> m_next b \<noteq> Some a \<longrightarrow> blocks s' a = blocks s a)"
proof (cases "m_next b")
  case None
  with b w wf p show ?thesis
    by (simp add: merge_and_cleanup_def Let_def unlink_block_def)
next
  case (Some n')
  with n obtain nb where nb: "blocks s n' = Some nb" and ne: "n' \<noteq> this" "n' \<noteq> p" by auto
  with Some b w wf p show ?thesis
    by (simp add: merge_and_cleanup_def Let_def unlink_block_def)
qed

subsection \<open>The root block stays\<close>

lemma root_ok_start: "root_ok (start n)"
  by (simp add: root_ok_def start_def g_heap_storage_def)

lemma root_ok_data:
  "root_ok s \<Longrightarrow> blocks s this = Some b \<Longrightarrow>
     root_ok (s\<lparr>blocks := (blocks s)(this \<mapsto> b\<lparr>m_data := m\<rparr>)\<rparr>)"
  by (auto simp: root_ok_def)

lemma root_ok_print: "root_ok (print x s) = root_ok s"
  by (simp add: root_ok_def print_def)

lemma ensure_next_root_ok:
  "root_ok s \<Longrightarrow> ensure_next_allocated_from_os s this = Some s' \<Longrightarrow> root_ok s'"
  by (auto simp: ensure_next_allocated_from_os_def mmap_def heap_block_size_def root_ok_def HeapBlock_new_def
        split: option.splits if_splits)

lemma alloc_root_ok:
  "root_ok s \<Longrightarrow> alloc k s this sz align = Return q s' \<Longrightarrow> root_ok s'"
proof (induction k arbitrary: s this sz align)
  case 0
  then show ?case by simp
next
  case (Suc k)
  show ?case
  proof (cases "align = 0")
    case True
    with Suc.prems show ?thesis by (auto simp: root_ok_print)
  next
    case False
    let ?sz = "align_size sz align"
    from Suc.prems(2) False obtain b where b: "blocks s this = Some b"
      by (auto simp: Let_def split: if_splits option.splits)
    show ?thesis
    proof (cases "alloc_scan (m_data b) ?sz 0")
      case (Placed m' p)
      with Suc.prems(2) False b
      have s': "s' = s\<lparr>blocks := (blocks s)(this \<mapsto> b\<lparr>m_data := m'\<rparr>)\<rparr>"
        by (auto simp: Let_def split: if_splits)
      show ?thesis unfolding s' using Suc.prems(1) b by (rule root_ok_data)
    next
      case EndReached
      with Suc.prems(2) False b obtain s1 n where
        en: "ensure_next_allocated_from_os s this = Some s1"
        and rec: "alloc k s1 n ?sz (max_t 8 align) = Return q s'"
        by (auto simp: Let_def split: if_splits option.splits)
      from Suc.prems(1) en have "root_ok s1" by (rule ensure_next_root_ok)
      from Suc.IH [OF this rec] show ?thesis .
    next
      case NoBlock
      with Suc.prems False b show ?thesis
        by (auto simp: Let_def root_ok_print split: if_splits)
    next
      case (BadSignature sg h)
      with Suc.prems False b show ?thesis by (auto simp: Let_def split: if_splits)
    next
      case Wild
      with Suc.prems False b show ?thesis by (auto simp: Let_def split: if_splits)
    qed
  qed
qed

lemma unlink_block_root_ok:
  assumes "root_ok s" "blocks s this = Some b" "m_prev b = Some p"
    "unlink_block s this b p = Some s'"
  shows "root_ok s'"
proof -
  from assms(1) obtain rb where rb: "blocks s g_heap_storage = Some rb" "m_prev rb = None"
    and nx: "\<And>a c. blocks s a = Some c \<Longrightarrow> m_next c \<noteq> Some g_heap_storage"
    and os: "g_heap_storage < os_next s"
    by (auto simp: root_ok_def)
  from rb assms(2,3) have tr: "this \<noteq> g_heap_storage" by auto
  from nx [OF assms(2)] have nn: "m_next b \<noteq> Some g_heap_storage" .
  show ?thesis
  proof (cases "m_next b")
    case None
    with assms(4) obtain pb where pb: "blocks s p = Some pb"
      and s': "s' = s\<lparr>blocks := (blocks s)(p \<mapsto> pb\<lparr>m_next := None\<rparr>, this := None),
                     munmapped := munmapped s @ [(Ptr this 0, heap_block_size)]\<rparr>"
      by (auto simp: unlink_block_def Let_def split: option.splits)
    show ?thesis
      unfolding s' root_ok_def using rb tr os pb nx by auto
  next
    case (Some n)
    with nn have ng: "n \<noteq> g_heap_storage" by simp
    from Some assms(4) obtain nb pb where nb: "blocks s n = Some nb"
      and pb: "((blocks s)(n \<mapsto> nb\<lparr>m_prev := Some p\<rparr>)) p = Some pb"
      and s': "s' = s\<lparr>blocks := (blocks s)(n \<mapsto> nb\<lparr>m_prev := Some p\<rparr>,
                        p \<mapsto> pb\<lparr>m_next := Some n\<rparr>, this := None),
                     munmapped := munmapped s @ [(Ptr this 0, heap_block_size)]\<rparr>"
      using assms(3) by (auto simp: unlink_block_def Let_def split: option.splits)
    have pbn: "m_next pb \<noteq> Some g_heap_storage \<and> (p = g_heap_storage \<longrightarrow> m_prev pb = None)"
      using pb nb nx rb ng by (auto split: if_splits)
    show ?thesis
      unfolding s' root_ok_def using rb tr os nb nx ng pbn by auto
  qed
qed

lemma merge_and_cleanup_root_ok:
  assumes "root_ok s" "merge_and_cleanup s this = Return () s'"
  shows "root_ok s'"
proof -
  from assms(2) obtain b m' where b: "blocks s this = Some b"
    and w: "merge_walk (m_data b) 0 = Some m'"
    by (auto simp: merge_and_cleanup_def split: option.splits)
  let ?b = "b\<lparr>m_data := m'\<rparr>"
  let ?s1 = "s\<lparr>blocks := (blocks s)(this \<mapsto> ?b)\<rparr>"
  have r1: "root_ok ?s1" using assms(1) b by (rule root_ok_data)
  from assms(2) b w have "s' = ?s1 \<or> (\<exists>p. m_prev ?b = Some p \<and> unlink_block ?s1 this ?b p = Some s')"
    by (auto simp: merge_and_cleanup_def Let_def split: if_splits option.splits)
  then show ?thesis
  proof
    assume "s' = ?s1" with r1 show ?thesis by simp
  next
    assume "\<exists>p. m_prev ?b = Some p \<and> unlink_block ?s1 this ?b p = Some s'"
    then obtain p where p: "m_prev ?b = Some p" "unlink_block ?s1 this ?b p = Some s'" by blast
    have "blocks ?s1 this = Some ?b" by simp
    from unlink_block_root_ok [OF r1 this p] show ?thesis .
  qed
qed

lemma free_root_ok:
  "root_ok s \<Longrightarrow> free k s this addr = Return () s' \<Longrightarrow> root_ok s'"
proof (induction k arbitrary: this)
  case 0
  then show ?case by simp
next
  case (Suc k)
  from Suc.prems(2) obtain b where b: "blocks s this = Some b"
    by (auto split: option.splits)
  show ?case
  proof (cases "in_data this addr")
    case False
    with Suc.prems(2) b obtain n where "free k s n addr = Return () s'"
      by (auto split: option.splits)
    from Suc.IH [OF Suc.prems(1) this] show ?thesis .
  next
    case True
    let ?h = "offset_of addr - header_size"
    let ?s1 = "s\<lparr>blocks := (blocks s)(this \<mapsto> b\<lparr>m_data := set_signature (m_data b) ?h Freed\<rparr>)\<rparr>"
    from Suc.prems(2) b True have mc: "merge_and_cleanup ?s1 this = Return () s'"
      by (auto simp: Let_def split: if_splits)
    have "root_ok ?s1" using Suc.prems(1) b by (rule root_ok_data)
    from merge_and_cleanup_root_ok [OF this mc] show ?thesis .
  qed
qed

lemma my_malloc_root_ok:
  assumes "root_ok s" "my_malloc k s sz align = Return q s'"
  shows "root_ok s'"
proof -
  let ?s = "ensure_initialized s"
  have r: "root_ok ?s"
    using assms(1) by (auto simp: root_ok_def ensure_initialized_def HeapBlock_new_def)
  show ?thesis
  proof (cases "sz > big_block_bound")
    case True
    with assms(2) have "blocks s' = blocks ?s" "os_next ?s \<le> os_next s'"
      by (auto simp: my_malloc_def Let_def mmap_def heap_block_size_def print_def split: option.splits if_splits)
    with r show ?thesis by (auto simp: root_ok_def)
  next
    case False
    with assms(2) have "alloc k ?s g_heap_storage sz align = Return q s'"
      by (simp add: my_malloc_def Let_def)
    from alloc_root_ok [OF r this] show ?thesis .
  qed
qed

lemma munmap_big_os_next: "os_next (munmap_big s header len) = os_next s"
  by (simp add: munmap_big_def Let_def split: ptr.splits nat.splits)

lemma my_free_root_ok:
  assumes "root_ok s" "my_free k s addr = Return () s'"
  shows "root_ok s'"
proof -
  from assms(2) obtain sg where sg: "signature_before s addr = Some sg"
    by (auto simp: my_free_def split: option.splits)
  show ?thesis
  proof (cases "sg = BigBlock")
    case True
    with assms(2) sg have "blocks s' = blocks s" "os_next s' = os_next s"
      by (auto simp: my_free_def munmap_big_blocks munmap_big_os_next print_def)
    with assms(1) show ?thesis by (simp add: root_ok_def)
  next
    case False
    with assms(2) sg have "free k s g_heap_storage addr = Return () s'"
      by (auto simp: my_free_def split: if_splits)
    from free_root_ok [OF assms(1) this] show ?thesis .
  qed
qed

section \<open>A second block, filled and released\<close>

lemmas walk_simps = valid_signature_def valid_sig_def available_def next_header_def
  Signature_distinct data_size_eq header_size_def

lemma block_full_headers:
  "signature_at block_full 0 = Used" "size_at block_full 0 = 16336"
  "signature_at block_full 16344 = Empty" "size_at block_full 16344 = 8"
  "signature_at block_full 16360 = EndEdge" "size_at block_full 16360 = 0"
  by (simp_all add: block_full_def init_headers header_other)

lemma block_8_headers:
  "signature_at block_8 0 = Used" "size_at block_8 0 = 8"
  "signature_at block_8 16 = Empty" "size_at block_8 16 = 16336"
  "signature_at block_8 16360 = EndEdge" "size_at block_8 16360 = 0"
  by (simp_all add: block_8_def init_headers header_other)

lemma alloc_scan_16336: "alloc_scan (init zeroes) 16336 0 = Placed block_full 8"
  by (subst alloc_scan.simps)
     (simp add: init_headers walk_simps Let_def block_full_def)

lemma alloc_scan_8: "alloc_scan (init zeroes) 8 0 = Placed block_8 8"
  by (subst alloc_scan.simps)
     (simp add: init_headers walk_simps Let_def block_8_def)

lemma alloc_scan_full: "alloc_scan block_full 8 0 = EndReached"
proof -
  have a: "alloc_scan block_full 8 16360 = EndReached"
    by (subst alloc_scan.simps) (simp add: block_full_headers walk_simps)
  have b: "alloc_scan block_full 8 16344 = EndReached"
    by (subst alloc_scan.simps) (simp add: block_full_headers walk_simps a)
  show ?thesis
    by (subst alloc_scan.simps) (simp add: block_full_headers walk_simps b)
qed

lemma my_malloc_full: "my_malloc (Suc 0) (start 1) 16336 1 = Return (Ptr 0 8) (full_root 1)"
  by (simp add: my_malloc_def big_block_bound_def heap_block_size_def header_size_def
        ensure_initialized_def start_def g_heap_storage_def HeapBlock_new_def align_size_def
        max_t_def full_root_def alloc_scan_16336)

lemma my_malloc_second:
  "my_malloc (Suc (Suc 0)) (full_root 1) 8 1 = Return (Ptr 1 8) (two_blocks block_8)"
  by (simp add: my_malloc_def big_block_bound_def heap_block_size_def header_size_def
        ensure_initialized_def g_heap_storage_def HeapBlock_new_def align_size_def
        max_t_def full_root_def two_blocks_def alloc_scan_full alloc_scan_8
        ensure_next_allocated_from_os_def mmap_def heap_block_size_def fun_upd_twist)

lemma merge_walk_8: "merge_walk (set_signature block_8 0 Freed) 0 = Some block_8_freed"
proof -
  let ?m2 = "set_signature block_8 0 Freed"
  note hb = block_8_headers
  have hs: "signature_at ?m2 0 = Freed" "size_at ?m2 0 = 8"
    "signature_at ?m2 16 = Empty" "size_at ?m2 16 = 16336"
    "signature_at ?m2 16360 = EndEdge" "size_at ?m2 16360 = 0"
    by (simp_all add: hb header_other)
  have run2: "merge_run ?m2 16 16352 = Some (Some 16360, 16352)"
    by (subst merge_run.simps) (simp add: hs hb walk_simps)
  have run1: "merge_run ?m2 0 8 = Some (Some 16360, 16352)"
    by (subst merge_run.simps) (simp add: hs hb walk_simps run2)
  have hs3: "signature_at block_8_freed 16360 = EndEdge" "size_at block_8_freed 16360 = 0"
    by (simp_all add: block_8_freed_def hs hb header_other)
  have w2: "merge_walk block_8_freed 16360 = Some block_8_freed"
    by (subst merge_walk.simps) (simp add: hs3 walk_simps)
  show ?thesis
    by (subst merge_walk.simps)
       (simp add: hs hb walk_simps run1 w2 [unfolded block_8_freed_def] block_8_freed_def)
qed

lemma block_8_freed_headers:
  "signature_at block_8_freed 0 = Freed" "size_at block_8_freed 0 = 16352"
  by (simp_all add: block_8_freed_def block_8_headers header_other)

lemma whole_block_free_8: "whole_block_free block_8_freed"
  by (simp add: whole_block_free_def block_8_freed_headers walk_simps)

lemma my_free_second:
  "my_free (Suc (Suc 0)) (two_blocks block_8) (Ptr 1 8) = Return () second_released"
proof -
  have sb: "signature_before (two_blocks block_8) (Ptr 1 8) = Some Used"
    by (simp add: signature_before_def two_blocks_def g_heap_storage_def header_size_def
          data_size_eq block_8_headers)
  have "free (Suc (Suc 0)) (two_blocks block_8) 0 (Ptr 1 8) = Return () second_released"
    by (simp add: two_blocks_def second_released_def g_heap_storage_def in_data_def
          offset_of_def header_size_def data_size_eq freed_def valid_signature_def valid_sig_def
          block_8_headers Signature_distinct merge_and_cleanup_def merge_walk_8
          whole_block_free_8 unlink_block_def Let_def fun_upd_twist)
  with sb show ?thesis
    by (simp add: my_free_def Signature_distinct two_blocks_def g_heap_storage_def)
qed

section \<open>Alignment zero\<close>

text \<open>
  Claim C2, as the code has it: with alignment 0 a request that goes to the blocks
  prints the message of line 200 and returns null, with the heap untouched apart from
  its lazy construction; nothing aborts. A request for a big block never looks at the
  alignment.
\<close>

theorem my_malloc_zero_align:
  "(sz \<le> big_block_bound \<longrightarrow>
      my_malloc (Suc k) s sz 0 = Return Null (print MsgInvalidAlign (ensure_initialized s))) \<and>
   (big_block_bound < sz \<longrightarrow> my_malloc k s sz 0 = my_malloc k s sz align)"
  by (auto simp: my_malloc_def Let_def)

theorem my_malloc_zero_align_witness:
  "(8 :: size_t) \<le> big_block_bound \<and>
   my_malloc (Suc 0) (start 0) 8 0 = Return Null (print MsgInvalidAlign (ensure_initialized (start 0))) \<and>
   big_block_bound < (100000 :: size_t) \<and>
   my_malloc 0 (start 1) 100000 0 = my_malloc 0 (start 1) 100000 16"
proof -
  have a: "(8 :: size_t) \<le> big_block_bound" and b: "big_block_bound < (100000 :: size_t)"
    by (simp_all add: big_block_bound_def heap_block_size_def header_size_def)
  show ?thesis
    using a b my_malloc_zero_align [of 8 0 "start 0"] my_malloc_zero_align [of 100000 0 "start 1" 16]
    by simp
qed

text \<open>Claim C2 as stated fails: the call returns null and does not abort.\<close>

theorem my_malloc_zero_align_counterexample:
  "my_malloc (Suc 0) (start 0) 8 0 =
     Return Null (print MsgInvalidAlign (ensure_initialized (start 0)))"
  by (simp add: my_malloc_def big_block_bound_def heap_block_size_def header_size_def)

section \<open>A corrupt header in the diagnostics\<close>

lemma meets_corrupt_leak_walk:
  "meets_corrupt m h0 h \<Longrightarrow>
     leak_walk m this h0 out found =
       Some (out @ leaks_before m this h0 @ [MsgLeakCorrupted (Ptr this h)], True)"
proof (induction m h0 h arbitrary: out found rule: meets_corrupt.induct)
  case (1 m h0 h)
  from "1.prems" have inb: "\<not> data_size < h0 + header_size"
    by (subst (asm) meets_corrupt.simps) (simp split: if_splits)
  show ?case
  proof (cases "valid_signature m h0")
    case False
    then have nu: "signature_at m h0 \<noteq> Used" by (auto simp: valid_signature_def valid_sig_def)
    from "1.prems" inb False have "h0 = h"
      by (subst (asm) meets_corrupt.simps) simp
    moreover have "leaks_before m this h0 = []"
      using inb False by (subst leaks_before.simps) simp
    ultimately show ?thesis
      using inb False nu by (subst leak_walk.simps) simp
  next
    case True
    with "1.prems" inb obtain n where n: "next_header m h0 = Some n"
      and rest: "meets_corrupt m n h"
      by (subst (asm) meets_corrupt.simps) (auto split: option.splits)
    note ih = "1.IH" [OF inb _ n rest]
    have lb: "leaks_before m this h0 =
        (if signature_at m h0 = Used \<and> 0 < size_at m h0
         then [MsgLeaked (size_at m h0) (Ptr this (h0 + header_size))] else []) @
        leaks_before m this n"
      using inb True n by (subst leaks_before.simps) simp
    show ?thesis
      using inb True n ih by (subst leak_walk.simps) (simp add: lb Let_def)
  qed
qed

lemma meets_corrupt_dump_walk:
  "meets_corrupt m h0 h \<Longrightarrow>
     dump_walk m this h0 out = Some (Inl (MsgDumpCorrupted (Ptr this h) (signature_at m h)))"
proof (induction m h0 h arbitrary: out rule: meets_corrupt.induct)
  case (1 m h0 h)
  from "1.prems" have inb: "\<not> data_size < h0 + header_size"
    by (subst (asm) meets_corrupt.simps) (simp split: if_splits)
  show ?case
  proof (cases "valid_signature m h0")
    case False
    from "1.prems" inb False have "h0 = h"
      by (subst (asm) meets_corrupt.simps) simp
    then show ?thesis
      using inb False by (subst dump_walk.simps) simp
  next
    case True
    with "1.prems" inb obtain n where n: "next_header m h0 = Some n"
      and rest: "meets_corrupt m n h"
      by (subst (asm) meets_corrupt.simps) (auto split: option.splits)
    note ih = "1.IH" [OF inb _ n rest]
    show ?thesis
      using inb True n ih by (subst dump_walk.simps) (simp add: Let_def)
  qed
qed

lemma walk_ok_leak_walk:
  "walk_ok m h0 \<Longrightarrow> \<exists>out' f. leak_walk m this h0 out found = Some (out', f)"
proof (induction m h0 arbitrary: out found rule: walk_ok.induct)
  case (1 m h0)
  from "1.prems" have inb: "\<not> data_size < h0 + header_size"
    by (subst (asm) walk_ok.simps) (simp split: if_splits)
  show ?case
  proof (cases "valid_signature m h0")
    case False
    then have nu: "signature_at m h0 \<noteq> Used" by (auto simp: valid_signature_def valid_sig_def)
    show ?thesis using inb False nu by (subst leak_walk.simps) auto
  next
    case True
    show ?thesis
    proof (cases "next_header m h0")
      case None
      show ?thesis using inb True None by (subst leak_walk.simps) (auto simp: Let_def)
    next
      case (Some n)
      with "1.prems" inb True have rest: "walk_ok m n"
        by (subst (asm) walk_ok.simps) simp
      note ih = "1.IH" [OF inb _ Some rest]
      show ?thesis
        using inb True Some ih by (subst leak_walk.simps) (auto simp: Let_def)
    qed
  qed
qed

lemma block_chain_stdout: "block_chain (s\<lparr>stdout := x\<rparr>) this bs = block_chain s this bs"
  by (induction bs arbitrary: this) (simp_all split: option.splits)

lemma leak_check_returns:
  "block_chain s this bs \<Longrightarrow> length bs \<le> k \<Longrightarrow> \<exists>s'. leak_check k s this = Return () s'"
proof (induction bs arbitrary: s this k)
  case Nil
  then show ?case by simp
next
  case (Cons a as)
  from Cons.prems(2) obtain k' where k: "k = Suc k'" and le: "length as \<le> k'"
    by (cases k) simp_all
  from Cons.prems(1) obtain b where b: "blocks s this = Some b"
    and w: "walk_ok (m_data b) 0"
    and nx: "case m_next b of None \<Rightarrow> as = [] | Some n \<Rightarrow> block_chain s n as"
    by (auto split: option.splits)
  from walk_ok_leak_walk [OF w] obtain out f where
    lw: "leak_walk (m_data b) this 0 (stdout s @ [MsgLeakStart this]) False = Some (out, f)"
    by blast
  show ?case
  proof (cases "m_next b")
    case None
    with b lw show ?thesis by (simp add: k Let_def)
  next
    case (Some n)
    with nx have "block_chain s n as" by simp
    then have "block_chain (s\<lparr>stdout := out\<rparr>) n as" by (simp add: block_chain_stdout)
    from Cons.IH [OF this le] obtain s2 where
      "leak_check k' (s\<lparr>stdout := out\<rparr>) n = Return () s2" by blast
    with b lw Some show ?thesis by (simp add: k Let_def)
  qed
qed

lemma leak_check_never_aborts: "leak_check k s a \<noteq> Abort d"
proof (induction k arbitrary: s a)
  case 0
  show ?case by simp
next
  case (Suc k)
  show ?case
    using Suc.IH
    by (auto simp: Let_def split: option.splits outcome.splits)
qed

text \<open>
  Claim C3, as the code has it. When the walk of \<^verbatim>\<open>leak_check\<close> over a block comes to a
  header with an unrecognised signature, the block prints its leak lines up to there and
  the corruption line naming that header, and nothing after them: no line that no leak
  was found. The call goes on with the following block, if there is one, and ends as
  that call ends; it returns when the chain of blocks ends and every walk stays inside
  its data area; and no call of \<^verbatim>\<open>leak_check\<close> ever aborts. \<^verbatim>\<open>dump\<close> aborts at the
  same header.
\<close>

theorem leak_check_corrupt_header:
  assumes "blocks s this = Some b" and "meets_corrupt (m_data b) 0 h"
  shows "leak_check (Suc k) s this =
           (let s1 = s\<lparr>stdout := stdout s @ MsgLeakStart this # leaks_before (m_data b) this 0 @
                                    [MsgLeakCorrupted (Ptr this h)]\<rparr>
            in case m_next b of None \<Rightarrow> Return () s1 | Some n \<Rightarrow> leak_check k s1 n) \<and>
         (block_chain s this bs \<longrightarrow> (\<exists>s2. leak_check (length bs) s this = Return () s2)) \<and>
         leak_check k' s' a \<noteq> Abort d \<and>
         dump (Suc k) s this =
           Abort (MsgDumpCorrupted (Ptr this h) (signature_at (m_data b) h))"
proof (intro conjI impI)
  let ?out = "stdout s @ MsgLeakStart this # leaks_before (m_data b) this 0 @
                [MsgLeakCorrupted (Ptr this h)]"
  have lw: "leak_walk (m_data b) this 0 (stdout s @ [MsgLeakStart this]) False = Some (?out, True)"
    using meets_corrupt_leak_walk [OF assms(2)] by simp
  show "leak_check (Suc k) s this =
           (let s1 = s\<lparr>stdout := ?out\<rparr>
            in case m_next b of None \<Rightarrow> Return () s1 | Some n \<Rightarrow> leak_check k s1 n)"
    using assms(1) lw by (auto simp: Let_def split: option.splits outcome.splits)
  show "\<exists>s2. leak_check (length bs) s this = Return () s2" if "block_chain s this bs"
    using that by (rule leak_check_returns) simp
  show "leak_check k' s' a \<noteq> Abort d" by (rule leak_check_never_aborts)
  show "dump (Suc k) s this =
           Abort (MsgDumpCorrupted (Ptr this h) (signature_at (m_data b) h))"
    using assms(1) meets_corrupt_dump_walk [OF assms(2)] by simp
qed

lemma corrupt_400_headers:
  "signature_at corrupt_400 0 = Used" "size_at corrupt_400 0 = 400"
  "signature_at corrupt_400 408 = ScrubBytes"
  by (simp_all add: corrupt_400_def block_400_headers header_other)

lemma ScrubBytes_invalid: "\<not> valid_sig ScrubBytes" "ScrubBytes \<noteq> Used"
  by (simp_all add: valid_sig_def Signature_defs)

lemma corrupt_400_walk:
  "meets_corrupt corrupt_400 0 408" "walk_ok corrupt_400 0"
  "leaks_before corrupt_400 0 0 = [MsgLeaked 400 (Ptr 0 8)]"
proof -
  have m2: "meets_corrupt corrupt_400 408 408"
    by (subst meets_corrupt.simps)
       (simp add: corrupt_400_headers ScrubBytes_invalid valid_signature_def data_size_eq
          header_size_def)
  show "meets_corrupt corrupt_400 0 408"
    by (subst meets_corrupt.simps) (simp add: corrupt_400_headers walk_simps m2)
  have w2: "walk_ok corrupt_400 408"
    by (subst walk_ok.simps)
       (simp add: corrupt_400_headers ScrubBytes_invalid valid_signature_def data_size_eq
          header_size_def)
  show "walk_ok corrupt_400 0"
    by (subst walk_ok.simps) (simp add: corrupt_400_headers walk_simps w2)
  have l2: "leaks_before corrupt_400 0 408 = []"
    by (subst leaks_before.simps)
       (simp add: corrupt_400_headers ScrubBytes_invalid valid_signature_def data_size_eq
          header_size_def)
  show "leaks_before corrupt_400 0 0 = [MsgLeaked 400 (Ptr 0 8)]"
    by (subst leaks_before.simps) (simp add: corrupt_400_headers walk_simps l2)
qed

lemma init_walk:
  "walk_ok (init zeroes) 0"
  "leak_walk (init zeroes) this 0 out False = Some (out, False)"
proof -
  have w2: "walk_ok (init zeroes) 16360"
    by (subst walk_ok.simps) (simp add: init_headers walk_simps)
  show "walk_ok (init zeroes) 0"
    by (subst walk_ok.simps) (simp add: init_headers walk_simps w2)
  have l2: "leak_walk (init zeroes) this 16360 out False = Some (out, False)"
    by (subst leak_walk.simps) (simp add: init_headers walk_simps)
  show "leak_walk (init zeroes) this 0 out False = Some (out, False)"
    by (subst leak_walk.simps) (simp add: init_headers walk_simps l2)
qed

theorem leak_check_corrupt_header_witness:
  "blocks corrupt_heap 0 = Some \<lparr>m_prev = None, m_next = Some 1, m_data = corrupt_400\<rparr> \<and>
   meets_corrupt corrupt_400 0 408 \<and> block_chain corrupt_heap 0 [0, 1] \<and>
   leak_check (Suc (Suc 0)) corrupt_heap 0 =
     Return ()
       (corrupt_heap\<lparr>stdout := [MsgLeakStart 0, MsgLeaked 400 (Ptr 0 8),
          MsgLeakCorrupted (Ptr 0 408), MsgLeakStart 1, MsgNoLeak 1]\<rparr>) \<and>
   dump (Suc (Suc 0)) corrupt_heap 0 = Abort (MsgDumpCorrupted (Ptr 0 408) ScrubBytes)"
proof -
  have b: "blocks corrupt_heap 0 = Some \<lparr>m_prev = None, m_next = Some 1, m_data = corrupt_400\<rparr>"
    and b1: "blocks corrupt_heap (Suc 0) =
      Some \<lparr>m_prev = Some 0, m_next = None, m_data = init zeroes\<rparr>"
    by (simp_all add: corrupt_heap_def g_heap_storage_def)
  have bc: "block_chain corrupt_heap 0 [0, 1]"
    by (simp add: b b1 corrupt_400_walk init_walk)
  have st: "stdout corrupt_heap = []" by (simp add: corrupt_heap_def)
  have nxt: "leak_check (Suc 0)
      (corrupt_heap\<lparr>stdout := [MsgLeakStart 0, MsgLeaked 400 (Ptr 0 8),
          MsgLeakCorrupted (Ptr 0 408)]\<rparr>) 1 =
     Return ()
       (corrupt_heap\<lparr>stdout := [MsgLeakStart 0, MsgLeaked 400 (Ptr 0 8),
          MsgLeakCorrupted (Ptr 0 408), MsgLeakStart 1, MsgNoLeak 1]\<rparr>)"
    by (simp add: b1 init_walk print_def)
  show ?thesis
    using leak_check_corrupt_header
      [of corrupt_heap 0 "\<lparr>m_prev = None, m_next = Some 1, m_data = corrupt_400\<rparr>" 408
          "Suc 0" "[0, 1]" 0 corrupt_heap 0 MsgAlreadyFreed]
      b bc corrupt_400_walk corrupt_400_headers st nxt
    by simp
qed

text \<open>
  Claim C3 as stated fails: on the scrubbed root block \<^verbatim>\<open>my_leak_check\<close> prints
  the corruption line and returns, where \<^verbatim>\<open>my_heap_dump\<close> aborts.
\<close>

theorem leak_check_counterexample:
  "my_leak_check (Suc 0) scrubbed_root =
     Return () (scrubbed_root\<lparr>stdout := [MsgLeakStart 0, MsgLeakCorrupted (Ptr 0 0)]\<rparr>) \<and>
   my_heap_dump (Suc 0) scrubbed_root = Abort (MsgDumpCorrupted (Ptr 0 0) ScrubBytes)"
proof -
  have l: "leak_walk (set_signature (init zeroes) 0 ScrubBytes) 0 0 [MsgLeakStart 0] False =
      Some ([MsgLeakStart 0, MsgLeakCorrupted (Ptr 0 0)], True)"
    by (subst leak_walk.simps)
       (simp add: valid_signature_def ScrubBytes_invalid data_size_eq header_size_def)
  have d: "dump_walk (set_signature (init zeroes) 0 ScrubBytes) 0 0 [MsgDumpBegin, MsgDumpHeap 0 None] =
      Some (Inl (MsgDumpCorrupted (Ptr 0 0) ScrubBytes))"
    by (subst dump_walk.simps)
       (simp add: valid_signature_def ScrubBytes_invalid data_size_eq header_size_def)
  show ?thesis
    by (simp add: my_leak_check_def my_heap_dump_def scrubbed_root_def g_heap_storage_def l d
          print_def)
qed

section \<open>Coalescing\<close>

text \<open>
  Claim C6: when \<^verbatim>\<open>free\<close> returns and its block is still mapped, the regions of the
  block are those it had with the released header marked \<^verbatim>\<open>Freed\<close> and every run of
  available regions merged into one (sizes summed, one header added for each header
  inside the run); no two neighbours are both available, and the layout holds.
\<close>

theorem free_coalesces:
  assumes "blocks s this = Some b" and "layout_ok (m_data b)"
    and "h \<in> set (header_offsets (m_data b))" and "h + header_size < data_size"
    and "free (Suc k) s this (Ptr this (h + header_size)) = Return () s'"
    and "blocks s' this = Some b'"
  shows "region_list (m_data b') = coalesce (mark_freed h 0 (region_list (m_data b))) \<and>
         coalesced (region_list (m_data b')) \<and> layout_ok (m_data b')"
proof -
  let ?rs = "region_list (m_data b)"
  have c: "chain (m_data b) 0 ?rs" using assms(2) by (rule layout_ok_region_list)
  have h: "h \<in> set (offsets 0 ?rs)"
    using assms(3) layout_header_offsets [OF c] by simp
  from free_block [OF c h assms(4)] obtain m' where
    w: "merge_walk (set_signature (m_data b) h Freed) 0 = Some m'"
    and c': "chain m' 0 (coalesce (mark_freed h 0 ?rs))" by blast
  let ?s1 = "s\<lparr>blocks := (blocks s)(this \<mapsto> b\<lparr>m_data := set_signature (m_data b) h Freed\<rparr>)\<rparr>"
  have "free (Suc k) s this (Ptr this (h + header_size)) = merge_and_cleanup ?s1 this"
    using assms(5) free_in_block [OF assms(1), of "h + header_size" k] assms(4)
    by (simp add: header_size_def split: if_splits)
  with assms(5) have mc: "merge_and_cleanup ?s1 this = Return () s'" by simp
  have "s' = ?s1\<lparr>blocks := (blocks ?s1)
      (this \<mapsto> (b\<lparr>m_data := set_signature (m_data b) h Freed\<rparr>)\<lparr>m_data := m'\<rparr>)\<rparr>"
    by (rule merge_and_cleanup_kept [OF _ _ mc]) (use w assms(6) in simp_all)
  with assms(6) have "m_data b' = m'" by auto
  with c' show ?thesis
    using chain_region_list [OF c'] coalesced_coalesce layout_ok_chain by auto
qed

theorem free_coalesces_witness:
  "blocks (state_with block_400) 0 = Some \<lparr>m_prev = None, m_next = None, m_data = block_400\<rparr> \<and>
   layout_ok block_400 \<and> 0 \<in> set (header_offsets block_400) \<and> 0 + header_size < data_size \<and>
   free (Suc 0) (state_with block_400) 0 (Ptr 0 (0 + header_size)) =
     Return () (state_with block_400_freed) \<and>
   region_list block_400_freed = coalesce (mark_freed 0 0 (region_list block_400)) \<and>
   coalesce (mark_freed 0 0 (region_list block_400)) = [(Freed, 16352), (EndEdge, 0)]"
proof -
  have b: "blocks (state_with block_400) 0 =
      Some \<lparr>m_prev = None, m_next = None, m_data = block_400\<rparr>"
    by (simp add: state_with_def g_heap_storage_def)
  have l: "layout_ok block_400" using example_block_400 layout_ok_chain by blast
  have rl: "region_list block_400 = [(Used, 400), (Empty, 15944), (EndEdge, 0)]"
    using example_block_400 by (rule chain_region_list)
  have o: "0 \<in> set (header_offsets block_400)"
    using layout_header_offsets [OF example_block_400] by simp
  have n: "0 + header_size < data_size" by (simp add: data_size_eq header_size_def)
  have f: "free (Suc 0) (state_with block_400) 0 (Ptr 0 (0 + header_size)) =
      Return () (state_with block_400_freed)"
    using free_400 by (simp add: header_size_def)
  have b': "blocks (state_with block_400_freed) 0 =
      Some \<lparr>m_prev = None, m_next = None, m_data = block_400_freed\<rparr>"
    by (simp add: state_with_def g_heap_storage_def)
  have co: "coalesce (mark_freed 0 0 (region_list block_400)) = [(Freed, 16352), (EndEdge, 0)]"
    by (simp add: rl avail_def Signature_distinct header_size_def)
  show ?thesis
    using free_coalesces [of "state_with block_400" 0
        "\<lparr>m_prev = None, m_next = None, m_data = block_400\<rparr>" 0 0
        "state_with block_400_freed"
        "\<lparr>m_prev = None, m_next = None, m_data = block_400_freed\<rparr>"]
      l co b o n f b'
    by simp
qed

section \<open>The invariant, claim by claim\<close>

text \<open>
  Claim C10: a new block satisfies the layout invariant; the split of \<^verbatim>\<open>alloc\<close> and
  the mark and merge of \<^verbatim>\<open>free\<close> (at the header of a region other than the end
  sentinel) keep it; so every state reached from the start by returning calls of
  \<^verbatim>\<open>my_malloc\<close> and of \<^verbatim>\<open>my_free\<close> at region addresses has all its blocks laid out.
\<close>

theorem layout_invariant:
  "layout_ok (init m0) \<and>
   (layout_ok m \<and> alloc_scan m sz 0 = Placed m1 p \<longrightarrow> layout_ok m1) \<and>
   (layout_ok m \<and> h \<in> set (header_offsets m) \<and> h + header_size < data_size \<longrightarrow>
      (\<exists>m2. merge_walk (set_signature m h Freed) 0 = Some m2 \<and> layout_ok m2)) \<and>
   heap_ok (start n) \<and>
   (heap_ok s \<and> my_malloc k s sz align = Return q s1 \<longrightarrow> heap_ok s1) \<and>
   (heap_ok s \<and> region_address s addr \<and> my_free k s addr = Return () s2 \<longrightarrow> heap_ok s2)"
  using layout_ok_init alloc_scan_layout free_block_layout heap_ok_start my_malloc_heap_ok
    my_free_heap_ok
  by blast

theorem layout_invariant_witness:
  "layout_ok (init zeroes) \<and> alloc_scan (init zeroes) 400 0 = Placed block_400 8 \<and>
   layout_ok block_400 \<and>
   0 \<in> set (header_offsets block_400) \<and> 0 + header_size < data_size \<and>
   (\<exists>m2. merge_walk (set_signature block_400 0 Freed) 0 = Some m2 \<and> layout_ok m2) \<and>
   heap_ok (start 0) \<and>
   my_malloc (Suc 0) (start 0) 400 1 = Return (Ptr 0 8) (state_with block_400) \<and>
   heap_ok (state_with block_400) \<and> region_address (state_with block_400) (Ptr 0 8) \<and>
   my_free (Suc 0) (state_with block_400) (Ptr 0 8) = Return () (state_with block_400_freed) \<and>
   heap_ok (state_with block_400_freed)"
proof -
  have o: "0 \<in> set (header_offsets block_400)"
    using layout_header_offsets [OF example_block_400] by simp
  have n: "0 + header_size < data_size" by (simp add: data_size_eq header_size_def)
  have ra: "region_address (state_with block_400) (Ptr 0 8)"
    using o by (simp add: region_address_def state_with_def g_heap_storage_def header_size_def
        data_size_eq)
  note a = layout_invariant [where ?m0.0 = zeroes and m = "init zeroes" and sz = 400
      and ?m1.0 = block_400 and p = 8 and n = 0 and s = "start 0" and k = "Suc 0" and align = 1
      and q = "Ptr 0 8" and ?s1.0 = "state_with block_400"]
  note b = layout_invariant [where m = block_400 and h = 0 and s = "state_with block_400"
      and k = "Suc 0" and addr = "Ptr 0 8" and ?s2.0 = "state_with block_400_freed"]
  from a have l0: "layout_ok (init zeroes)" and l1: "layout_ok block_400"
    and h0: "heap_ok (start 0)" and h1: "heap_ok (state_with block_400)"
    using alloc_scan_400 my_malloc_400 by simp_all
  from b l1 o n h1 ra my_free_400
  have "\<exists>m2. merge_walk (set_signature block_400 0 Freed) 0 = Some m2 \<and> layout_ok m2"
    and "heap_ok (state_with block_400_freed)"
    by simp_all
  with l0 l1 h0 h1 o n ra alloc_scan_400 my_malloc_400 my_free_400 show ?thesis by simp
qed

section \<open>Release of an empty block\<close>


lemma root_ok_two_blocks: "root_ok (two_blocks m)"
  by (simp add: root_ok_def two_blocks_def g_heap_storage_def)

lemma layout_block_8_freed: "chain block_8_freed 0 [(Freed, 16352), (EndEdge, 0)]"
proof -
  have "signature_at block_8_freed 16360 = EndEdge" "size_at block_8_freed 16360 = 0"
    by (simp_all add: block_8_freed_def block_8_headers header_other)
  then show ?thesis
    by (simp add: block_8_freed_headers data_size_eq header_size_def)
qed


section \<open>Calls on a heap of one block\<close>

lemma my_malloc_start:
  assumes "alloc_scan (init zeroes) sz 0 = Placed m' p" and "\<not> big_block_bound < sz"
    and "align_size sz 1 = sz"
  shows "my_malloc (Suc k) (start 0) sz 1 = Return (Ptr 0 p) (state_with m')"
  using assms
  by (simp add: my_malloc_def ensure_initialized_def start_def g_heap_storage_def
        HeapBlock_new_def state_with_def)

lemma my_malloc_state_with:
  assumes "alloc_scan m sz 0 = Placed m' p" and "\<not> big_block_bound < sz"
    and "align_size sz 1 = sz"
  shows "my_malloc (Suc k) (state_with m) sz 1 = Return (Ptr 0 p) (state_with m')"
  using assms
  by (simp add: my_malloc_def ensure_initialized_def g_heap_storage_def state_with_def)

lemma my_free_state_with:
  assumes "signature_at m h = Used \<or> signature_at m h = Empty" and "h + header_size < data_size"
    and "merge_walk (set_signature m h Freed) 0 = Some m'"
  shows "my_free (Suc k) (state_with m) (Ptr 0 (h + header_size)) = Return () (state_with m')"
proof -
  have sb: "signature_before (state_with m) (Ptr 0 (h + header_size)) = Some (signature_at m h)"
    using assms(2)
    by (simp add: signature_before_def state_with_def g_heap_storage_def header_size_def)
  have nb: "signature_at m h \<noteq> BigBlock" "signature_at m h \<noteq> Freed" "valid_sig (signature_at m h)"
    using assms(1) by (auto simp: Signature_distinct valid_sig_def)
  have f: "free (Suc k) (state_with m) 0 (Ptr 0 (h + header_size)) = Return () (state_with m')"
    using assms(2,3) nb
    by (simp add: state_with_def g_heap_storage_def in_data_def offset_of_def freed_def
          valid_signature_def merge_and_cleanup_def header_size_def Let_def)
  show ?thesis
    using sb nb f by (simp add: my_free_def state_with_def g_heap_storage_def)
qed

lemma small_sizes:
  "\<not> big_block_bound < 8" "align_size 8 1 = 8" "\<not> big_block_bound < 32" "align_size 32 1 = 32"
  "\<not> big_block_bound < 104" "align_size 104 1 = 104"
  by (simp_all add: big_block_bound_def heap_block_size_def header_size_def align_size_def
        max_t_def)

section \<open>Releasing twice\<close>

lemma chain_last_offset:
  "chain m h0 rs \<Longrightarrow> h \<in> set (offsets h0 rs) \<Longrightarrow> h + header_size = data_size \<Longrightarrow>
     signature_at m h = EndEdge"
proof (induction rs arbitrary: h0)
  case Nil
  then show ?case by simp
next
  case (Cons r rs)
  let ?n = "h0 + unat (snd r) + header_size"
  show ?case
  proof (cases "h = h0")
    case True
    have "rs = []"
    proof (rule ccontr)
      assume "rs \<noteq> []"
      with Cons.prems(1) have "chain m ?n rs" by simp
      then have "?n + header_size \<le> data_size" by (rule chain_inb)
      with True Cons.prems(3) show False by (simp add: header_size_def)
    qed
    with Cons.prems(1) True show ?thesis by simp
  next
    case False
    with Cons.prems(2) have mem: "h \<in> set (offsets ?n rs)" by simp
    then have "rs \<noteq> []" by auto
    with Cons.prems(1) have "chain m ?n rs" by simp
    from Cons.IH [OF this mem Cons.prems(3)] show ?thesis .
  qed
qed

lemma offsets_inb: "chain m h0 rs \<Longrightarrow> h \<in> set (offsets h0 rs) \<Longrightarrow> h + header_size \<le> data_size"
proof (induction rs arbitrary: h0)
  case Nil
  then show ?case by simp
next
  case (Cons r rs)
  show ?case
  proof (cases "h = h0")
    case True
    with Cons.prems(1) show ?thesis by simp
  next
    case False
    with Cons.prems(2) have mem: "h \<in> set (offsets (h0 + unat (snd r) + header_size) rs)"
      by simp
    then have "rs \<noteq> []" by auto
    with Cons.prems(1) have "chain m (h0 + unat (snd r) + header_size) rs" by simp
    from Cons.IH [OF this mem] show ?thesis .
  qed
qed

lemma used_not_last:
  assumes "layout_ok m" "h \<in> set (header_offsets m)" "signature_at m h \<noteq> EndEdge"
  shows "h + header_size < data_size"
proof -
  from assms(1) have c: "chain m 0 (region_list m)" by (rule layout_ok_region_list)
  have mem: "h \<in> set (offsets 0 (region_list m))"
    using assms(2) layout_header_offsets [OF c] by simp
  from offsets_inb [OF c mem] chain_last_offset [OF c mem] assms(3) show ?thesis
    by (cases "h + header_size = data_size") simp_all
qed

text \<open>A returning \<^verbatim>\<open>free\<close> that leaves its block mapped changes the data of that block
  only.\<close>

lemma free_kept:
  assumes "blocks s a = Some b" "header_size \<le> off" "off < data_size"
    and "free k s t (Ptr a off) = Return () s'" "blocks s' a \<noteq> None"
  shows "\<exists>m'. merge_walk (set_signature (m_data b) (off - header_size) Freed) 0 = Some m' \<and>
           s' = s\<lparr>blocks := (blocks s)(a \<mapsto> b\<lparr>m_data := m'\<rparr>)\<rparr>"
  using assms(4)
proof (induction k arbitrary: t)
  case 0
  then show ?case by simp
next
  case (Suc k)
  from Suc.prems obtain bt where bt: "blocks s t = Some bt" by (auto split: option.splits)
  show ?case
  proof (cases "t = a")
    case False
    then have "\<not> in_data t (Ptr a off)" by (simp add: in_data_def)
    with Suc.prems bt obtain n where "free k s n (Ptr a off) = Return () s'"
      by (auto split: option.splits)
    then show ?thesis by (rule Suc.IH)
  next
    case True
    let ?h = "off - header_size"
    let ?b1 = "b\<lparr>m_data := set_signature (m_data b) ?h Freed\<rparr>"
    let ?s1 = "s\<lparr>blocks := (blocks s)(a \<mapsto> ?b1)\<rparr>"
    from Suc.prems True have mc: "merge_and_cleanup ?s1 a = Return () s'"
      using free_in_block [OF assms(1,2,3), of k] by (simp split: if_splits)
    then obtain m' where w: "merge_walk (set_signature (m_data b) ?h Freed) 0 = Some m'"
      by (auto simp: merge_and_cleanup_def split: option.splits)
    have "s' = ?s1\<lparr>blocks := (blocks ?s1)(a \<mapsto> ?b1\<lparr>m_data := m'\<rparr>)\<rparr>"
      by (rule merge_and_cleanup_kept [OF _ _ mc assms(5)]) (simp_all add: w)
    then have "s' = s\<lparr>blocks := (blocks s)(a \<mapsto> b\<lparr>m_data := m'\<rparr>)\<rparr>" by simp
    with w show ?thesis by blast
  qed
qed

text \<open>The same walk over the chain of blocks then finds the header marked.\<close>

lemma free_again:
  assumes "blocks s a = Some b" "header_size \<le> off" "off < data_size"
    and "freed m' (off - header_size)"
    and "free k s t (Ptr a off) = Return () s0"
  shows "free k (s\<lparr>blocks := (blocks s)(a \<mapsto> b\<lparr>m_data := m'\<rparr>)\<rparr>) t (Ptr a off) =
           Abort MsgAlreadyFreed"
  using assms(5)
proof (induction k arbitrary: t)
  case 0
  then show ?case by simp
next
  case (Suc k)
  let ?s' = "s\<lparr>blocks := (blocks s)(a \<mapsto> b\<lparr>m_data := m'\<rparr>)\<rparr>"
  from Suc.prems obtain bt where bt: "blocks s t = Some bt" by (auto split: option.splits)
  show ?case
  proof (cases "t = a")
    case False
    then have nd: "\<not> in_data t (Ptr a off)" by (simp add: in_data_def)
    with Suc.prems bt obtain n where n: "m_next bt = Some n"
      and rec: "free k s n (Ptr a off) = Return () s0"
      by (auto split: option.splits)
    from rec have ih: "free k ?s' n (Ptr a off) = Abort MsgAlreadyFreed" by (rule Suc.IH)
    define s1 where "s1 = ?s'"
    have "blocks s1 t = Some bt" using False bt by (simp add: s1_def)
    with nd n ih [folded s1_def] have "free (Suc k) s1 t (Ptr a off) = Abort MsgAlreadyFreed"
      by simp
    then show ?thesis by (simp only: s1_def)
  next
    case True
    have "blocks ?s' a = Some (b\<lparr>m_data := m'\<rparr>)" by simp
    note e = free_in_block [OF this assms(2,3), of k]
    have fr: "freed (m_data (b\<lparr>m_data := m'\<rparr>)) (off - header_size)"
      using assms(4) by simp
    show ?thesis unfolding True e by (simp only: fr if_True)
  qed
qed



section \<open>A second release after the region was reused\<close>

lemma block_8_8_headers:
  "signature_at block_8_8 0 = Used" "size_at block_8_8 0 = 8"
  "signature_at block_8_8 16 = Used" "size_at block_8_8 16 = 8"
  "signature_at block_8_8 32 = Empty" "size_at block_8_8 32 = 16320"
  "signature_at block_8_8 16360 = EndEdge" "size_at block_8_8 16360 = 0"
  by (simp_all add: block_8_8_def block_8_headers header_other)

lemma alloc_scan_8_8: "alloc_scan block_8 8 0 = Placed block_8_8 24"
proof -
  have a: "alloc_scan block_8 8 16 = Placed block_8_8 24"
    by (subst alloc_scan.simps) (simp add: block_8_headers walk_simps Let_def block_8_8_def)
  show ?thesis
    by (subst alloc_scan.simps) (simp add: block_8_headers walk_simps a)
qed

lemma block_8_8_a_headers:
  "signature_at block_8_8_a 0 = Used" "size_at block_8_8_a 0 = 8"
  "signature_at block_8_8_a 16 = Freed" "size_at block_8_8_a 16 = 16336"
  "signature_at block_8_8_a 16360 = EndEdge" "size_at block_8_8_a 16360 = 0"
  by (simp_all add: block_8_8_a_def block_8_8_headers header_other)

lemma merge_walk_8_8_a: "merge_walk (set_signature block_8_8 16 Freed) 0 = Some block_8_8_a"
proof -
  let ?m = "set_signature block_8_8 16 Freed"
  note hb = block_8_8_headers
  have hs: "signature_at ?m 0 = Used" "size_at ?m 0 = 8"
    "signature_at ?m 16 = Freed" "size_at ?m 16 = 8"
    "signature_at ?m 32 = Empty" "size_at ?m 32 = 16320"
    "signature_at ?m 16360 = EndEdge" "size_at ?m 16360 = 0"
    by (simp_all add: hb header_other)
  have run2: "merge_run ?m 32 16336 = Some (Some 16360, 16336)"
    by (subst merge_run.simps) (simp add: hs hb walk_simps)
  have run1: "merge_run ?m 16 8 = Some (Some 16360, 16336)"
    by (subst merge_run.simps) (simp add: hs hb walk_simps run2)
  have w3: "merge_walk block_8_8_a 16360 = Some block_8_8_a"
    by (subst merge_walk.simps) (simp add: block_8_8_a_headers walk_simps)
  have w2: "merge_walk ?m 16 = Some block_8_8_a"
    by (subst merge_walk.simps)
       (simp add: hs hb walk_simps run1 w3 [unfolded block_8_8_a_def] block_8_8_a_def)
  show ?thesis
    by (subst merge_walk.simps) (simp add: hs hb walk_simps w2)
qed

lemma block_8_8_b_headers:
  "signature_at block_8_8_b 0 = Freed" "size_at block_8_8_b 0 = 16352"
  "signature_at block_8_8_b 16360 = EndEdge" "size_at block_8_8_b 16360 = 0"
  by (simp_all add: block_8_8_b_def block_8_8_a_headers header_other)

lemma merge_walk_8_8_b: "merge_walk (set_signature block_8_8_a 0 Freed) 0 = Some block_8_8_b"
proof -
  let ?m = "set_signature block_8_8_a 0 Freed"
  note hb = block_8_8_a_headers
  have hs: "signature_at ?m 0 = Freed" "size_at ?m 0 = 8"
    "signature_at ?m 16 = Freed" "size_at ?m 16 = 16336"
    "signature_at ?m 16360 = EndEdge" "size_at ?m 16360 = 0"
    by (simp_all add: hb header_other)
  have run2: "merge_run ?m 16 16352 = Some (Some 16360, 16352)"
    by (subst merge_run.simps) (simp add: hs hb walk_simps)
  have run1: "merge_run ?m 0 8 = Some (Some 16360, 16352)"
    by (subst merge_run.simps) (simp add: hs hb walk_simps run2)
  have w2: "merge_walk block_8_8_b 16360 = Some block_8_8_b"
    by (subst merge_walk.simps) (simp add: block_8_8_b_headers walk_simps)
  show ?thesis
    by (subst merge_walk.simps)
       (simp add: hs hb walk_simps run1 w2 [unfolded block_8_8_b_def] block_8_8_b_def)
qed

lemma alloc_scan_8_8_c: "alloc_scan block_8_8_b 8 0 = Placed block_8_8_c 8"
  by (subst alloc_scan.simps)
     (simp add: block_8_8_b_headers walk_simps Let_def block_8_8_c_def)

lemma block_8_8_c_headers:
  "signature_at block_8_8_c 0 = Used" "size_at block_8_8_c 0 = 8"
  "signature_at block_8_8_c 16 = Empty" "size_at block_8_8_c 16 = 16336"
  "signature_at block_8_8_c 16360 = EndEdge" "size_at block_8_8_c 16360 = 0"
  by (simp_all add: block_8_8_c_def block_8_8_b_headers header_other)

lemma block_8_8_d_headers:
  "signature_at block_8_8_d 16360 = EndEdge" "size_at block_8_8_d 16360 = 0"
  by (simp_all add: block_8_8_d_def block_8_8_c_headers header_other)

lemma merge_walk_8_8_d: "merge_walk (set_signature block_8_8_c 16 Freed) 0 = Some block_8_8_d"
proof -
  let ?m = "set_signature block_8_8_c 16 Freed"
  note hb = block_8_8_c_headers
  have hs: "signature_at ?m 0 = Used" "size_at ?m 0 = 8"
    "signature_at ?m 16 = Freed" "size_at ?m 16 = 16336"
    "signature_at ?m 16360 = EndEdge" "size_at ?m 16360 = 0"
    by (simp_all add: hb header_other)
  have run1: "merge_run ?m 16 16336 = Some (Some 16360, 16336)"
    by (subst merge_run.simps) (simp add: hs hb walk_simps)
  have w3: "merge_walk block_8_8_d 16360 = Some block_8_8_d"
    by (subst merge_walk.simps) (simp add: block_8_8_d_headers walk_simps)
  have w2: "merge_walk ?m 16 = Some block_8_8_d"
    by (subst merge_walk.simps)
       (simp add: hs hb walk_simps run1 w3 [unfolded block_8_8_d_def] block_8_8_d_def)
  show ?thesis
    by (subst merge_walk.simps) (simp add: hs hb walk_simps w2)
qed

lemma double_free_steps:
  "my_malloc (Suc 0) (start 0) 8 1 = Return (Ptr 0 8) (state_with block_8)"
  "my_malloc (Suc 0) (state_with block_8) 8 1 = Return (Ptr 0 24) (state_with block_8_8)"
  "my_free (Suc 0) (state_with block_8_8) (Ptr 0 24) = Return () (state_with block_8_8_a)"
  "my_free (Suc 0) (state_with block_8_8_a) (Ptr 0 8) = Return () (state_with block_8_8_b)"
  "my_malloc (Suc 0) (state_with block_8_8_b) 8 1 = Return (Ptr 0 8) (state_with block_8_8_c)"
  "my_free (Suc 0) (state_with block_8_8_c) (Ptr 0 24) = Return () (state_with block_8_8_d)"
proof -
  show "my_malloc (Suc 0) (start 0) 8 1 = Return (Ptr 0 8) (state_with block_8)"
    by (rule my_malloc_start [OF alloc_scan_8 small_sizes(1,2)])
  show "my_malloc (Suc 0) (state_with block_8) 8 1 = Return (Ptr 0 24) (state_with block_8_8)"
    by (rule my_malloc_state_with [OF alloc_scan_8_8 small_sizes(1,2)])
  show "my_free (Suc 0) (state_with block_8_8) (Ptr 0 24) = Return () (state_with block_8_8_a)"
    using my_free_state_with [of block_8_8 16 block_8_8_a 0] merge_walk_8_8_a
    by (simp add: block_8_8_headers header_size_def data_size_eq)
  show "my_free (Suc 0) (state_with block_8_8_a) (Ptr 0 8) = Return () (state_with block_8_8_b)"
    using my_free_state_with [of block_8_8_a 0 block_8_8_b 0] merge_walk_8_8_b
    by (simp add: block_8_8_a_headers header_size_def data_size_eq)
  show "my_malloc (Suc 0) (state_with block_8_8_b) 8 1 = Return (Ptr 0 8) (state_with block_8_8_c)"
    by (rule my_malloc_state_with [OF alloc_scan_8_8_c small_sizes(1,2)])
  show "my_free (Suc 0) (state_with block_8_8_c) (Ptr 0 24) = Return () (state_with block_8_8_d)"
    using my_free_state_with [of block_8_8_c 16 block_8_8_d 0] merge_walk_8_8_d
    by (simp add: block_8_8_c_headers header_size_def data_size_eq)
qed


section \<open>Reuse of a released region\<close>

lemma before_append:
  "before (h + total pre + header_size) h (pre @ r # post) = pre"
proof (induction pre arbitrary: h)
  case Nil
  show ?case by simp
next
  case (Cons a pre)
  let ?n = "h + unat (snd a) + header_size"
  have e: "h + total (a # pre) + header_size = ?n + total pre + header_size" by simp
  have lt: "h + header_size < ?n + total pre + header_size" by (simp add: header_size_def)
  have "before (?n + total pre + header_size) h (a # (pre @ r # post)) =
      a # before (?n + total pre + header_size) ?n (pre @ r # post)"
    using lt by (simp only: before.simps if_True)
  then show ?case unfolding e append_Cons by (simp only: Cons.IH)
qed

lemma mark_freed_append:
  "mark_freed (h + total pre) h (pre @ r # post) = pre @ (Freed, snd r) # post"
proof (induction pre arbitrary: h)
  case Nil
  show ?case by simp
next
  case (Cons a pre)
  let ?n = "h + unat (snd a) + header_size"
  have e: "h + total (a # pre) = ?n + total pre" by simp
  have ne: "h \<noteq> ?n + total pre" by (simp add: header_size_def)
  have "mark_freed (?n + total pre) h (a # (pre @ r # post)) =
      a # mark_freed (?n + total pre) ?n (pre @ r # post)"
    using ne by (simp only: mark_freed.simps if_False)
  then show ?case unfolding e append_Cons by (simp only: Cons.IH)
qed

lemma coalesce_prefix:
  "coalesced (pre @ r # post) \<Longrightarrow> avail r \<Longrightarrow> coalesce (pre @ rs) = pre @ coalesce rs"
proof (induction pre)
  case Nil
  then show ?case by simp
next
  case (Cons a pre)
  show ?case
  proof (cases pre)
    case Nil
    with Cons.prems have "\<not> avail a" by simp
    with Nil show ?thesis by simp
  next
    case (Cons b pre')
    with Cons.prems have na: "\<not> (avail a \<and> avail b)" and co: "coalesced (pre @ r # post)"
      by simp_all
    from Cons.IH [OF co Cons.prems(2)] have ih: "coalesce (pre @ rs) = pre @ coalesce rs" .
    show ?thesis
    proof (cases "avail a")
      case True
      with na have "\<not> avail b" by simp
      with True Cons ih show ?thesis by simp
    next
      case False
      with ih show ?thesis by simp
    qed
  qed
qed

text \<open>The walk of \<^verbatim>\<open>alloc\<close> stops at a region that fits.\<close>

lemma alloc_scan_fit:
  assumes c: "chain m h (r # rs)" and f: "fits sz r" and nz: "sz \<noteq> 0"
    and ex: "unat sz + 16 \<le> unat (snd r)"
  shows "\<exists>m'. alloc_scan m sz h = Placed m' (h + header_size)"
proof -
  from c have inb: "h + header_size \<le> data_size" and sg: "signature_at m h = fst r"
    and sr: "size_at m h = snd r" by simp_all
  from f have av: "available m h" and nf: "\<not> (ucast (size_at m h) < sz + 8 * 2)"
    by (simp_all add: fits_def avail_def available_def sg sr)
  have valid: "valid_signature m h"
    using av by (auto simp: valid_signature_def valid_sig_def available_def)
  from f have "avail r" by (simp add: fits_def)
  with c have ne: "rs \<noteq> []" by (rule chain_not_last_avail)
  with c have "chain m (h + unat (snd r) + header_size) rs" by simp
  then have inb2: "h + unat (snd r) + header_size + header_size \<le> data_size" by (rule chain_inb)
  have us: "unat (ucast sz :: u32) = unat sz" using split_sizes(1) [OF ex] .
  have "unat (ucast sz :: u32) \<noteq> 0" using nz us by (simp add: unat_eq_0)
  then have nz32: "(ucast sz :: u32) \<noteq> 0" by (simp add: unat_eq_0)
  have fin: "\<not> data_size < h + unat sz + header_size + header_size"
    using inb2 ex by simp
  show ?thesis
    using inb valid av nf nz32 us fin
    by (subst alloc_scan.simps) (simp add: Let_def next_header_def)
qed

lemma alloc_scan_not_first:
  assumes c: "chain m h (a # rs)" and a: "alloc_scan m sz h = Placed m1 p"
    and p: "h + header_size < p"
  shows "\<not> fits sz a" and "valid_signature m h" and "signature_at m h \<noteq> EndEdge"
    and "rs \<noteq> []" and "alloc_scan m sz (h + unat (snd a) + header_size) = Placed m1 p"
proof -
  show nf: "\<not> fits sz a"
  proof
    assume "fits sz a"
    from alloc_scan_split(1) [OF c this a] p show False by simp
  qed
  from c have inb: "h + header_size \<le> data_size" by simp
  from a inb show "valid_signature m h"
    by (subst (asm) alloc_scan.simps) (simp split: if_splits)
  from c have sg: "signature_at m h = fst a" and sr: "size_at m h = snd a" by simp_all
  from nf have nf': "\<not> (available m h \<and> \<not> (ucast (size_at m h) < sz + 8 * 2))"
    by (simp add: fits_def avail_def available_def sg sr)
  from a inb nf' show "signature_at m h \<noteq> EndEdge"
    by (subst (asm) alloc_scan.simps) (auto split: if_splits)
  from alloc_scan_skip [OF c nf a]
  show "rs \<noteq> []" and "alloc_scan m sz (h + unat (snd a) + header_size) = Placed m1 p"
    by simp_all
qed

text \<open>Two walks over the same regions in front of the address: where the first walk went
  on, the second, for a size that none of these regions fits, goes on as well.\<close>

lemma reuse_walk:
  assumes "chain m h (pre @ r # post)" and "chain m2 h (pre @ R # post2)"
    and "alloc_scan m sz h = Placed m1 (h + total pre + header_size)"
    and "\<forall>x\<in>set pre. \<not> fits sz' x" and "fits sz' R" and "sz' \<noteq> 0"
    and "unat sz' + 16 \<le> unat (snd R)"
  shows "\<exists>m3. alloc_scan m2 sz' h = Placed m3 (h + total pre + header_size)"
  using assms(1,2,3,4)
proof (induction pre arbitrary: h)
  case Nil
  from Nil.prems(2) have "chain m2 h (R # post2)" by simp
  from alloc_scan_fit [OF this assms(5,6,7)] show ?case by simp
next
  case (Cons a pre)
  let ?n = "h + unat (snd a) + header_size"
  from Cons.prems(1) have c: "chain m h (a # (pre @ r # post))" by simp
  have far: "h + header_size < h + total (a # pre) + header_size"
    by (simp add: header_size_def)
  note nf = alloc_scan_not_first [OF c Cons.prems(3) far]
  from Cons.prems(2) have c2: "chain m2 h (a # (pre @ R # post2))" by simp
  then have inb: "h + header_size \<le> data_size" and sg2: "signature_at m2 h = fst a"
    and sr2: "size_at m2 h = snd a" and nz: "snd a \<noteq> 0"
    and ct2: "chain m2 ?n (pre @ R # post2)" by simp_all
  from c have sg: "signature_at m h = fst a" and ct: "chain m ?n (pre @ r # post)" by simp_all
  have valid2: "valid_signature m2 h"
    using nf(2) by (simp add: valid_signature_def sg sg2)
  have ne2: "signature_at m2 h \<noteq> EndEdge" using nf(3) by (simp add: sg sg2)
  from Cons.prems(4) have "\<not> fits sz' a" by simp
  then have nf2: "\<not> (available m2 h \<and> \<not> (ucast (size_at m2 h) < sz' + 8 * 2))"
    by (simp add: fits_def avail_def available_def sg2 sr2)
  have step: "alloc_scan m2 sz' h = alloc_scan m2 sz' ?n"
    using inb valid2 ne2 nf2 nz
    by (subst alloc_scan.simps) (auto simp: next_header_def sr2)
  have p: "h + total (a # pre) + header_size = ?n + total pre + header_size" by simp
  from Cons.prems(4) have rest: "\<forall>x\<in>set pre. \<not> fits sz' x" by simp
  from Cons.IH [OF ct ct2 nf(5) [unfolded p] rest] show ?case
    unfolding step p .
qed

text \<open>
  The walk of \<^verbatim>\<open>alloc\<close> over a laid-out block with no two available neighbours: when
  the walk for \<open>sz\<close> bytes returns the address \<open>p\<close>, the header in front of \<open>p\<close> is then
  marked \<^verbatim>\<open>Freed\<close> and merged, and no region in front of \<open>p\<close> is available and large
  enough for \<open>sz'\<close> bytes, where \<open>0 < sz' \<le> sz\<close>, then the walk for \<open>sz'\<close> bytes returns
  \<open>p\<close> again.
\<close>

lemma reuse_first_fit:
  assumes "layout_ok m" and "coalesced (region_list m)"
    and "alloc_scan m sz 0 = Placed m1 p"
    and "merge_walk (set_signature m1 (p - header_size) Freed) 0 = Some m2"
    and "sz' \<le> sz" and "sz' \<noteq> 0"
    and "\<forall>r\<in>set (regions_before m2 p). \<not> fits sz' r"
  shows "\<exists>m3. alloc_scan m2 sz' 0 = Placed m3 p"
proof -
  from assms(1) have c: "chain m 0 (region_list m)" by (rule layout_ok_region_list)
  from alloc_scan_chain [OF c assms(3)] obtain pre r post where
    rs: "region_list m = pre @ r # post" and post: "post \<noteq> []"
    and f: "fits sz r" and p: "p = total pre + header_size"
    and ex: "unat sz + 16 \<le> unat (snd r)"
    and c1: "chain m1 0 (pre @ (Used, ucast sz) #
                (Empty, ucast (ucast (snd r) - sz - 8 :: size_t)) # post)"
    by auto
  define d :: u32 where "d = ucast (ucast (snd r) - sz - 8 :: size_t)"
  let ?rs1 = "pre @ (Used, ucast sz) # (Empty, d) # post"
  note c1' = c1 [folded d_def]
  have us: "unat (ucast sz :: u32) = unat sz" and ud: "unat d = unat (snd r) - unat sz - 8"
    using split_sizes [OF ex] by (simp_all add: d_def)
  have h: "p - header_size = total pre" using p by simp
  have mem: "total pre \<in> set (offsets 0 ?rs1)" by (simp add: offsets_append)
  have tot1: "total ?rs1 = data_size" using chain_total [OF c1'] by simp
  then have nl: "total pre + header_size < data_size" by (simp add: header_size_def)
  from free_block [OF c1' mem nl] assms(4) [unfolded h]
  have c2: "chain m2 0 (coalesce (mark_freed (total pre) 0 ?rs1))" by auto
  have mk: "mark_freed (total pre) 0 ?rs1 = pre @ (Freed, ucast sz) # (Empty, d) # post"
    using mark_freed_append [of 0 pre "(Used, ucast sz)" "(Empty, d) # post"] by simp
  from f have av: "avail r" by (simp add: fits_def)
  have co: "coalesced (pre @ r # post)" using assms(2) rs by simp
  define k where "k = unat sz + total (takeWhile avail ((Empty, d) # post))"
  define R :: region where "R = (Freed, of_nat k)"
  define post2 where "post2 = coalesce (dropWhile avail ((Empty, d) # post))"
  have "coalesce (pre @ (Freed, ucast sz) # (Empty, d) # post) =
      pre @ coalesce ((Freed, ucast sz) # (Empty, d) # post)"
    using co av by (rule coalesce_prefix)
  also have "coalesce ((Freed, ucast sz) # (Empty, d) # post) = R # post2"
    unfolding R_def post2_def k_def
    by (subst coalesce.simps) (simp add: avail_def us del: takeWhile.simps dropWhile.simps)
  finally have c2': "chain m2 0 (pre @ R # post2)" using c2 mk by simp
  have kle: "k \<le> total ?rs1"
    unfolding k_def using total_takeWhile_le [of avail "(Empty, d) # post"]
    by (simp add: us del: takeWhile.simps)
  then have "k < 4294967296" using tot1 by (simp add: data_size_eq)
  then have uR: "unat (snd R) = k" by (simp add: R_def unat_of_nat32)
  have "header_size + unat d \<le> total (takeWhile avail ((Empty, d) # post))"
    by (simp add: avail_def)
  then have kge: "unat sz + 16 \<le> k"
    unfolding k_def using ud ex by (simp add: header_size_def)
  have le: "unat sz' \<le> unat sz" using assms(5) by (simp add: word_le_nat_alt)
  have "unat sz \<le> data_size" using kge kle tot1 by simp
  with le have small: "unat sz' + 16 < 18446744073709551616" by (simp add: data_size_eq)
  have fR: "fits sz' R"
    using fits_no_wrap [OF small, of "snd R"] uR kge le
    by (simp add: fits_def R_def avail_def)
  have exR: "unat sz' + 16 \<le> unat (snd R)" using uR kge le by simp
  have "region_list m2 = pre @ R # post2" using c2' by (rule chain_region_list)
  then have "regions_before m2 p = pre"
    using before_append [of 0 pre R post2] by (simp add: regions_before_def p)
  with assms(7) have npre: "\<forall>x\<in>set pre. \<not> fits sz' x" by simp
  have a0: "alloc_scan m sz 0 = Placed m1 (0 + total pre + header_size)"
    using assms(3) p by simp
  from reuse_walk [OF c [unfolded rs] c2' a0 npre fR assms(6) exR]
  show ?thesis by (simp add: p)
qed

lemma chain_nth:
  "chain m h (pre @ r # post) \<Longrightarrow>
     signature_at m (h + total pre) = fst r \<and> size_at m (h + total pre) = snd r"
proof (induction pre arbitrary: h)
  case Nil
  then show ?case by simp
next
  case (Cons a pre)
  let ?n = "h + unat (snd a) + header_size"
  from Cons.prems have "chain m ?n (pre @ r # post)" by simp
  from Cons.IH [OF this] show ?case by (simp add: add_ac)
qed

lemma alloc_scan_address:
  assumes "layout_ok m" and "alloc_scan m sz 0 = Placed m1 p"
  shows "header_size \<le> p" and "p < data_size"
    and "signature_at m1 (p - header_size) = Used"
proof -
  from assms(1) have c: "chain m 0 (region_list m)" by (rule layout_ok_region_list)
  from alloc_scan_chain [OF c assms(2)] obtain pre u post where
    p: "p = 0 + total pre + header_size"
    and c1: "chain m1 0 (pre @ (Used, ucast sz) # u # post)"
    by blast
  show "header_size \<le> p" using p by simp
  from chain_total [OF c1] show "p < data_size" using p by (simp add: header_size_def)
  from chain_nth [OF c1] show "signature_at m1 (p - header_size) = Used" using p by simp
qed

text \<open>An allocation that walks on from the root block returns no address of the root
  block.\<close>

lemma alloc_elsewhere:
  "root_ok s \<Longrightarrow> this \<noteq> g_heap_storage \<Longrightarrow> alloc k s this sz align = Return (Ptr a p) s' \<Longrightarrow>
     a \<noteq> g_heap_storage"
proof (induction k arbitrary: s this sz align)
  case 0
  then show ?case by simp
next
  case (Suc k)
  show ?case
  proof (cases "align = 0")
    case True
    with Suc.prems show ?thesis by simp
  next
    case False
    let ?sz = "align_size sz align"
    from Suc.prems(3) False obtain b where b: "blocks s this = Some b"
      by (auto simp: Let_def split: if_splits option.splits)
    show ?thesis
    proof (cases "alloc_scan (m_data b) ?sz 0")
      case (Placed m' q)
      with Suc.prems(3) False b have "a = this"
        by (auto simp: Let_def split: if_splits)
      with Suc.prems(2) show ?thesis by simp
    next
      case EndReached
      with Suc.prems(3) False b obtain s1 b' n where
        en: "ensure_next_allocated_from_os s this = Some s1"
        and b': "blocks s1 this = Some b'" and n: "m_next b' = Some n"
        and rec: "alloc k s1 n ?sz (max_t 8 align) = Return (Ptr a p) s'"
        by (auto simp: Let_def split: if_splits option.splits)
      from Suc.prems(1) en have r1: "root_ok s1" by (rule ensure_next_root_ok)
      with b' n have "n \<noteq> g_heap_storage" by (auto simp: root_ok_def)
      from Suc.IH [OF r1 this rec] show ?thesis .
    next
      case NoBlock
      with Suc.prems(3) False b show ?thesis by (auto simp: Let_def split: if_splits)
    next
      case (BadSignature sg h)
      with Suc.prems(3) False b show ?thesis by (auto simp: Let_def split: if_splits)
    next
      case Wild
      with Suc.prems(3) False b show ?thesis by (auto simp: Let_def split: if_splits)
    qed
  qed
qed

lemma alloc_in_root:
  assumes "root_ok s" and "blocks s g_heap_storage = Some b"
    and "alloc (Suc k) s g_heap_storage sz align = Return (Ptr g_heap_storage p) s1"
  shows "align \<noteq> 0" and "sz \<le> align_size sz align"
    and "\<exists>m1. alloc_scan (m_data b) (align_size sz align) 0 = Placed m1 p \<and>
           s1 = s\<lparr>blocks := (blocks s)(g_heap_storage \<mapsto> b\<lparr>m_data := m1\<rparr>)\<rparr>"
proof -
  let ?sz = "align_size sz align"
  show al: "align \<noteq> 0" using assms(3) by (auto split: if_splits)
  show le: "sz \<le> ?sz" using assms(3) al by (auto simp: Let_def split: if_splits)
  show "\<exists>m1. alloc_scan (m_data b) ?sz 0 = Placed m1 p \<and>
           s1 = s\<lparr>blocks := (blocks s)(g_heap_storage \<mapsto> b\<lparr>m_data := m1\<rparr>)\<rparr>"
  proof (cases "alloc_scan (m_data b) ?sz 0")
    case (Placed m' q)
    with assms(2,3) al le show ?thesis by (auto simp: Let_def)
  next
    case EndReached
    with assms(2,3) al le obtain s' b' n where
      en: "ensure_next_allocated_from_os s g_heap_storage = Some s'"
      and b': "blocks s' g_heap_storage = Some b'" and n: "m_next b' = Some n"
      and rec: "alloc k s' n ?sz (max_t 8 align) = Return (Ptr g_heap_storage p) s1"
      by (auto simp: Let_def split: if_splits option.splits)
    from assms(1) en have r1: "root_ok s'" by (rule ensure_next_root_ok)
    with b' n have "n \<noteq> g_heap_storage" by (auto simp: root_ok_def)
    from alloc_elsewhere [OF r1 this rec] show ?thesis by simp
  next
    case NoBlock
    with assms(2,3) al le show ?thesis by (auto simp: Let_def)
  next
    case (BadSignature sg h)
    with assms(2,3) al le show ?thesis by (auto simp: Let_def)
  next
    case Wild
    with assms(2,3) al le show ?thesis by (auto simp: Let_def)
  qed
qed

lemma my_malloc_in_root:
  assumes "g_heap_initialized s" and "root_ok s"
    and "my_malloc k s sz align = Return (Ptr g_heap_storage p) s1"
  shows "\<not> big_block_bound < sz"
    and "alloc k s g_heap_storage sz align = Return (Ptr g_heap_storage p) s1"
proof -
  from assms(2) have "g_heap_storage < os_next s" by (simp add: root_ok_def)
  with assms(1,3) show nb: "\<not> big_block_bound < sz"
    by (auto simp: my_malloc_def ensure_initialized_def mmap_def heap_block_size_def split: if_splits option.splits)
  with assms(1,3) show "alloc k s g_heap_storage sz align = Return (Ptr g_heap_storage p) s1"
    by (simp add: my_malloc_def ensure_initialized_def)
qed


lemma example_block_8: "chain block_8 0 [(Used, 8), (Empty, 16336), (EndEdge, 0)]"
  by (simp add: block_8_headers data_size_eq header_size_def)

lemma example_block_8_8_a: "chain block_8_8_a 0 [(Used, 8), (Freed, 16336), (EndEdge, 0)]"
  by (simp add: block_8_8_a_headers data_size_eq header_size_def)


section \<open>A hole in front of the released region\<close>

lemma hole_1_headers:
  "signature_at hole_1 0 = Used" "size_at hole_1 0 = 32"
  "signature_at hole_1 40 = Empty" "size_at hole_1 40 = 16312"
  "signature_at hole_1 16360 = EndEdge" "size_at hole_1 16360 = 0"
  by (simp_all add: hole_1_def init_headers header_other)

lemma alloc_scan_hole_1: "alloc_scan (init zeroes) 32 0 = Placed hole_1 8"
  by (subst alloc_scan.simps) (simp add: init_headers walk_simps Let_def hole_1_def)

lemma hole_2_headers:
  "signature_at hole_2 0 = Used" "size_at hole_2 0 = 32"
  "signature_at hole_2 40 = Used" "size_at hole_2 40 = 8"
  "signature_at hole_2 56 = Empty" "size_at hole_2 56 = 16296"
  "signature_at hole_2 16360 = EndEdge" "size_at hole_2 16360 = 0"
  by (simp_all add: hole_2_def hole_1_headers header_other)

lemma alloc_scan_hole_2: "alloc_scan hole_1 8 0 = Placed hole_2 48"
proof -
  have a: "alloc_scan hole_1 8 40 = Placed hole_2 48"
    by (subst alloc_scan.simps) (simp add: hole_1_headers walk_simps Let_def hole_2_def)
  show ?thesis
    by (subst alloc_scan.simps) (simp add: hole_1_headers walk_simps a)
qed

lemma hole_3_headers:
  "signature_at hole_3 0 = Freed" "size_at hole_3 0 = 32"
  "signature_at hole_3 40 = Used" "size_at hole_3 40 = 8"
  "signature_at hole_3 56 = Empty" "size_at hole_3 56 = 16296"
  "signature_at hole_3 16360 = EndEdge" "size_at hole_3 16360 = 0"
  by (simp_all add: hole_3_def hole_2_headers header_other)

lemma merge_walk_hole_3: "merge_walk (set_signature hole_2 0 Freed) 0 = Some hole_3"
proof -
  let ?m = "set_signature hole_2 0 Freed"
  let ?m1 = "set_size ?m 0 32"
  note hb = hole_2_headers
  have hs: "signature_at ?m 0 = Freed" "size_at ?m 0 = 32"
    "signature_at ?m 40 = Used" "size_at ?m 40 = 8"
    by (simp_all add: hb header_other)
  have hs1: "signature_at ?m1 40 = Used" "size_at ?m1 40 = 8"
    "signature_at ?m1 56 = Empty" "size_at ?m1 56 = 16296"
    "signature_at ?m1 16360 = EndEdge" "size_at ?m1 16360 = 0"
    by (simp_all add: hb header_other)
  have run1: "merge_run ?m 0 32 = Some (Some 40, 32)"
    by (subst merge_run.simps) (simp add: hs hb walk_simps)
  have run2: "merge_run ?m1 56 16296 = Some (Some 16360, 16296)"
    by (subst merge_run.simps) (simp add: hs1 hb walk_simps)
  have w4: "merge_walk hole_3 16360 = Some hole_3"
    by (subst merge_walk.simps) (simp add: hole_3_headers walk_simps)
  have w3: "merge_walk ?m1 56 = Some hole_3"
    by (subst merge_walk.simps)
       (simp add: hs1 hb walk_simps run2 w4 [unfolded hole_3_def] hole_3_def)
  have w2: "merge_walk ?m1 40 = Some hole_3"
    by (subst merge_walk.simps) (simp add: hs1 hb walk_simps w3)
  show ?thesis
    by (subst merge_walk.simps) (simp add: hs hb walk_simps run1 w2)
qed

lemma hole_4_headers:
  "signature_at hole_4 0 = Freed" "size_at hole_4 0 = 32"
  "signature_at hole_4 40 = Used" "size_at hole_4 40 = 8"
  "signature_at hole_4 56 = Used" "size_at hole_4 56 = 104"
  "signature_at hole_4 168 = Empty" "size_at hole_4 168 = 16184"
  "signature_at hole_4 16360 = EndEdge" "size_at hole_4 16360 = 0"
  by (simp_all add: hole_4_def hole_3_headers header_other)

lemma alloc_scan_hole_4: "alloc_scan hole_3 104 0 = Placed hole_4 64"
proof -
  have a: "alloc_scan hole_3 104 56 = Placed hole_4 64"
    by (subst alloc_scan.simps) (simp add: hole_3_headers walk_simps Let_def hole_4_def)
  have b: "alloc_scan hole_3 104 40 = Placed hole_4 64"
    by (subst alloc_scan.simps) (simp add: hole_3_headers walk_simps a)
  show ?thesis
    by (subst alloc_scan.simps) (simp add: hole_3_headers walk_simps b)
qed

lemma hole_5_headers:
  "signature_at hole_5 0 = Freed" "size_at hole_5 0 = 32"
  "signature_at hole_5 40 = Used" "size_at hole_5 40 = 8"
  "signature_at hole_5 56 = Freed" "size_at hole_5 56 = 16296"
  "signature_at hole_5 16360 = EndEdge" "size_at hole_5 16360 = 0"
  by (simp_all add: hole_5_def hole_4_headers header_other)

lemma merge_walk_hole_5: "merge_walk (set_signature hole_4 56 Freed) 0 = Some hole_5"
proof -
  let ?m = "set_signature hole_4 56 Freed"
  let ?m1 = "set_size ?m 0 32"
  note hb = hole_4_headers
  have hs: "signature_at ?m 0 = Freed" "size_at ?m 0 = 32"
    "signature_at ?m 40 = Used" "size_at ?m 40 = 8"
    by (simp_all add: hb header_other)
  have hs1: "signature_at ?m1 40 = Used" "size_at ?m1 40 = 8"
    "signature_at ?m1 56 = Freed" "size_at ?m1 56 = 104"
    "signature_at ?m1 168 = Empty" "size_at ?m1 168 = 16184"
    "signature_at ?m1 16360 = EndEdge" "size_at ?m1 16360 = 0"
    by (simp_all add: hb header_other)
  have run1: "merge_run ?m 0 32 = Some (Some 40, 32)"
    by (subst merge_run.simps) (simp add: hs hb walk_simps)
  have run3: "merge_run ?m1 168 16296 = Some (Some 16360, 16296)"
    by (subst merge_run.simps) (simp add: hs1 hb walk_simps)
  have run2: "merge_run ?m1 56 104 = Some (Some 16360, 16296)"
    by (subst merge_run.simps) (simp add: hs1 hb walk_simps run3)
  have w4: "merge_walk hole_5 16360 = Some hole_5"
    by (subst merge_walk.simps) (simp add: hole_5_headers walk_simps)
  have w3: "merge_walk ?m1 56 = Some hole_5"
    by (subst merge_walk.simps)
       (simp add: hs1 hb walk_simps run2 w4 [unfolded hole_5_def] hole_5_def)
  have w2: "merge_walk ?m1 40 = Some hole_5"
    by (subst merge_walk.simps) (simp add: hs1 hb walk_simps w3)
  show ?thesis
    by (subst merge_walk.simps) (simp add: hs hb walk_simps run1 w2)
qed

lemma alloc_scan_hole_6: "alloc_scan hole_5 8 0 = Placed hole_6 8"
  by (subst alloc_scan.simps) (simp add: hole_5_headers walk_simps Let_def hole_6_def)

lemma reuse_steps:
  "my_malloc (Suc 0) (start 0) 32 1 = Return (Ptr 0 8) (state_with hole_1)"
  "my_malloc (Suc 0) (state_with hole_1) 8 1 = Return (Ptr 0 48) (state_with hole_2)"
  "my_free (Suc 0) (state_with hole_2) (Ptr 0 8) = Return () (state_with hole_3)"
  "my_malloc (Suc 0) (state_with hole_3) 104 1 = Return (Ptr 0 64) (state_with hole_4)"
  "my_free (Suc 0) (state_with hole_4) (Ptr 0 64) = Return () (state_with hole_5)"
  "my_malloc (Suc 0) (state_with hole_5) 8 1 = Return (Ptr 0 8) (state_with hole_6)"
proof -
  show "my_malloc (Suc 0) (start 0) 32 1 = Return (Ptr 0 8) (state_with hole_1)"
    by (rule my_malloc_start [OF alloc_scan_hole_1 small_sizes(3,4)])
  show "my_malloc (Suc 0) (state_with hole_1) 8 1 = Return (Ptr 0 48) (state_with hole_2)"
    by (rule my_malloc_state_with [OF alloc_scan_hole_2 small_sizes(1,2)])
  show "my_free (Suc 0) (state_with hole_2) (Ptr 0 8) = Return () (state_with hole_3)"
    using my_free_state_with [of hole_2 0 hole_3 0] merge_walk_hole_3
    by (simp add: hole_2_headers header_size_def data_size_eq)
  show "my_malloc (Suc 0) (state_with hole_3) 104 1 = Return (Ptr 0 64) (state_with hole_4)"
    by (rule my_malloc_state_with [OF alloc_scan_hole_4 small_sizes(5,6)])
  show "my_free (Suc 0) (state_with hole_4) (Ptr 0 64) = Return () (state_with hole_5)"
    using my_free_state_with [of hole_4 56 hole_5 0] merge_walk_hole_5
    by (simp add: hole_4_headers header_size_def data_size_eq)
  show "my_malloc (Suc 0) (state_with hole_5) 8 1 = Return (Ptr 0 8) (state_with hole_6)"
    by (rule my_malloc_state_with [OF alloc_scan_hole_6 small_sizes(1,2)])
qed


end
